theory Spec2Isabelle
  imports Complex_Main "HOL-Library.Signed_Division" "HOL-Library.Log_Nat" "HOL-Library.Multiset"
begin

section \<open>Machine integers, errors and doubles\<close>

text \<open>
  The container of \<^verbatim>\<open>hash_table.hpp\<close> / \<^verbatim>\<open>hash_table.cpp\<close> maps \<^verbatim>\<open>int\<close> keys to
  \<^verbatim>\<open>std::string\<close> values. A C++ \<^verbatim>\<open>int\<close> is modelled as a HOL \<open>int\<close> together with the
  bounds below; wherever the source does signed arithmetic that can leave the bounds the
  model has a branch that returns \<open>IntegerOverflow\<close>. Undefined behaviour of the source
  (signed overflow, \<^verbatim>\<open>%\<close> by zero, indexing a vector outside its size) and its exceptions are
  values of the type \<open>error\<close>; every operation that can reach one returns \<open>error + 'a\<close>.
  Failure of memory allocation is not modelled.
\<close>

definition INT_MAX :: int where
  "INT_MAX = 2147483647"

definition INT_MIN :: int where
  "INT_MIN = - 2147483648"

datatype error =
    logic_error string
  | DivisionByZero
  | IntegerOverflow
  | IndexOutOfRange

text \<open>
  \<^verbatim>\<open>inline int hash(int key, int table_size) { return key % table_size; }\<close>
  The remainder of C++ truncates towards zero and takes the sign of the dividend, which is
  \<open>smod\<close> on \<open>int\<close>; it is undefined for a zero divisor and for \<^verbatim>\<open>INT_MIN % -1\<close>.
\<close>

definition utils_hash :: "int \<Rightarrow> int \<Rightarrow> error + int" where
  "utils_hash key table_size =
     (if table_size = 0 then Inl DivisionByZero
      else if key = INT_MIN \<and> table_size = - 1 then Inl IntegerOverflow
      else Inr (key smod table_size))"

text \<open>
  A finite \<^verbatim>\<open>double\<close> is modelled by the rational number it denotes. The only floating-point
  operation of the source whose result is rounded is the quotient
  \<^verbatim>\<open>static_cast<double>(num_keys_) / buckets_.size()\<close>: both conversions are exact and the
  quotient is rounded to the nearest value with a 53-bit significand, ties to even
  (IEEE 754 binary64, default rounding). Its magnitude lies between \<open>2\<^sup>-\<^sup>3\<^sup>1\<close> and \<open>2\<^sup>3\<^sup>1\<close>, so
  neither overflow nor subnormal numbers occur and the exponent is left unbounded here.
  \<open>binade x\<close> is the exponent \<open>e\<close> with \<open>2\<^sup>e \<le> x < 2\<^sup>e\<^sup>+\<^sup>1\<close> of a positive \<open>x\<close>.
  Infinities and NaN are not modelled.
\<close>

definition round_half_even :: "rat \<Rightarrow> int" where
  "round_half_even x =
     (let f = \<lfloor>x\<rfloor>; d = x - of_int f
      in if d < 1 / 2 then f else if 1 / 2 < d then f + 1 else if even f then f else f + 1)"

definition binade :: "rat \<Rightarrow> int" where
  "binade x =
     (let e = bitlen (fst (quotient_of x)) - bitlen (snd (quotient_of x))
      in if 2 powi e \<le> x then e else e - 1)"

definition round_double :: "rat \<Rightarrow> rat" where
  "round_double x =
     (if x = 0 then 0
      else let u = 2 powi (binade \<bar>x\<bar> - 52)
           in sgn x * of_int (round_half_even (\<bar>x\<bar> / u)) * u)"

definition is_double :: "rat \<Rightarrow> bool" where
  "is_double x \<longleftrightarrow> round_double x = x"

definition double_div :: "int \<Rightarrow> nat \<Rightarrow> rat" where
  "double_div n c = round_double (of_int n / of_nat c)"

section \<open>The hash table\<close>

type_synonym bucket = "(int \<times> string) list"

text \<open>
  The data members of \<^verbatim>\<open>class HashTable\<close>: \<^verbatim>\<open>num_keys_\<close>, \<^verbatim>\<open>load_factor_\<close> and
  \<^verbatim>\<open>buckets_\<close> (a \<^verbatim>\<open>std::vector\<close> of \<^verbatim>\<open>std::list\<close>s of pairs).
\<close>

record HashTable =
  m_num_keys :: int
  m_load_factor :: rat
  m_buckets :: "bucket list"

definition kGrowthCoefficient :: int where
  "kGrowthCoefficient = 2"

definition kDefaultLoadFactor :: rat where
  "kDefaultLoadFactor = 3 / 4"

subsection \<open>Accessors\<close>

definition size_ht :: "HashTable \<Rightarrow> int" where
  "size_ht t = m_num_keys t"

definition empty_ht :: "HashTable \<Rightarrow> bool" where
  "empty_ht t \<longleftrightarrow> size_ht t = 0"

text \<open>
  \<^verbatim>\<open>static_cast<int>(buckets_.size())\<close>; the size of the vector never exceeds \<open>INT_MAX\<close>
  in a table built by the operations below (part of \<open>invar\<close>), so the cast is the identity.
\<close>

definition capacity :: "HashTable \<Rightarrow> int" where
  "capacity t = int (length (m_buckets t))"

definition load_factor :: "HashTable \<Rightarrow> rat" where
  "load_factor t = m_load_factor t"

text \<open>
  \<^verbatim>\<open>keys()\<close> collects the keys of all buckets in a \<^verbatim>\<open>std::unordered_set\<close> (its
  constructor argument \<^verbatim>\<open>num_keys_\<close> is only a hint for the number of hash buckets) and
  \<^verbatim>\<open>values()\<close> the values, bucket after bucket and in the order of each list. Neither of
  them indexes \<^verbatim>\<open>buckets_\<close>.
\<close>

definition keys_ht :: "HashTable \<Rightarrow> int set" where
  "keys_ht t = set (map fst (concat (m_buckets t)))"

definition values_ht :: "HashTable \<Rightarrow> string list" where
  "values_ht t = map snd (concat (m_buckets t))"

subsection \<open>Construction\<close>

text \<open>
  \<^verbatim>\<open>HashTable::HashTable(int capacity, double load_factor)\<close>: the two checks in the order of
  the source, each throwing \<^verbatim>\<open>std::logic_error\<close> with its message, then
  \<^verbatim>\<open>buckets_.resize(capacity)\<close>.
\<close>

definition New :: "int \<Rightarrow> rat \<Rightarrow> error + HashTable" where
  "New cap lf =
     (if cap \<le> 0 then Inl (logic_error ''hash table capacity must be greater than zero'')
      else if lf \<le> 0 \<or> 1 < lf
        then Inl (logic_error ''hash table load factor must be in range [0...1]'')
      else Inr \<lparr>m_num_keys = 0, m_load_factor = lf, m_buckets = replicate (nat cap) []\<rparr>)"

subsection \<open>Search and ContainsKey\<close>

definition hash :: "HashTable \<Rightarrow> int \<Rightarrow> error + int" where
  "hash t key = utils_hash key (capacity t)"

text \<open>\<^verbatim>\<open>buckets_[index]\<close> with an \<^verbatim>\<open>int\<close> index: outside the vector it is undefined.\<close>

definition bucket_at :: "bucket list \<Rightarrow> int \<Rightarrow> error + bucket" where
  "bucket_at bs index =
     (if 0 \<le> index \<and> index < int (length bs) then Inr (bs ! nat index) else Inl IndexOutOfRange)"

text \<open>The loop of \<^verbatim>\<open>Search\<close>: the value of the first pair whose key matches.\<close>

fun find_value :: "bucket \<Rightarrow> int \<Rightarrow> string option" where
  "find_value [] key = None"
| "find_value ((k, v) # ps) key = (if k = key then Some v else find_value ps key)"

definition Search :: "HashTable \<Rightarrow> int \<Rightarrow> error + string option" where
  "Search t key =
     (case hash t key of
        Inl e \<Rightarrow> Inl e
      | Inr index \<Rightarrow>
          (case bucket_at (m_buckets t) index of
             Inl e \<Rightarrow> Inl e
           | Inr b \<Rightarrow> Inr (find_value b key)))"

text \<open>\<^verbatim>\<open>return Search(key).has_value();\<close>\<close>

definition ContainsKey :: "HashTable \<Rightarrow> int \<Rightarrow> error + bool" where
  "ContainsKey t key =
     (case Search t key of Inl e \<Rightarrow> Inl e | Inr r \<Rightarrow> Inr (r \<noteq> None))"

subsection \<open>Put\<close>

text \<open>
  The loop of the update branch has no \<^verbatim>\<open>break\<close>: it assigns the value of every pair of
  the bucket whose key matches.
\<close>

fun overwrite :: "bucket \<Rightarrow> int \<Rightarrow> string \<Rightarrow> bucket" where
  "overwrite [] key val = []"
| "overwrite ((k, v) # ps) key val =
     (if k = key then (k, val) else (k, v)) # overwrite ps key val"

text \<open>
  The two nested loops of the resize block: every pair of every old bucket, in order, is
  appended to the new bucket at \<^verbatim>\<open>utils::hash(pair.first, newBuckets.size())\<close>.
\<close>

fun rehash_bucket :: "bucket \<Rightarrow> bucket list \<Rightarrow> error + bucket list" where
  "rehash_bucket [] nb = Inr nb"
| "rehash_bucket (p # ps) nb =
     (case utils_hash (fst p) (int (length nb)) of
        Inl e \<Rightarrow> Inl e
      | Inr h \<Rightarrow>
          (if 0 \<le> h \<and> h < int (length nb)
           then rehash_bucket ps (nb[nat h := nb ! nat h @ [p]])
           else Inl IndexOutOfRange))"

fun rehash_all :: "bucket list \<Rightarrow> bucket list \<Rightarrow> error + bucket list" where
  "rehash_all [] nb = Inr nb"
| "rehash_all (b # bs) nb =
     (case rehash_bucket b nb of Inl e \<Rightarrow> Inl e | Inr nb' \<Rightarrow> rehash_all bs nb')"

text \<open>
  The body of the \<^verbatim>\<open>if\<close> that closes \<^verbatim>\<open>Put\<close>: a vector of
  \<^verbatim>\<open>capacity() * kGrowthCoefficient\<close> empty buckets (an \<^verbatim>\<open>int\<close> product), filled by the
  loops above and then assigned to \<^verbatim>\<open>buckets_\<close>.
\<close>

definition grow :: "HashTable \<Rightarrow> error + HashTable" where
  "grow t =
     (let n = capacity t * kGrowthCoefficient
      in if INT_MAX < n then Inl IntegerOverflow
         else (case rehash_all (m_buckets t) (replicate (nat n) []) of
                 Inl e \<Rightarrow> Inl e
               | Inr nb \<Rightarrow> Inr (t\<lparr>m_buckets := nb\<rparr>)))"

text \<open>
  The first statement of \<^verbatim>\<open>Put\<close> and its \<^verbatim>\<open>if\<close>/\<^verbatim>\<open>else\<close>: the index, then
  \<^verbatim>\<open>ContainsKey(key)\<close> (which indexes the bucket, so the index is inside the vector in
  both branches), then either the update loop or \<^verbatim>\<open>push_back\<close> with \<^verbatim>\<open>num_keys_++\<close>.
\<close>

definition put_entry :: "HashTable \<Rightarrow> int \<Rightarrow> string \<Rightarrow> error + HashTable" where
  "put_entry t key val =
     (case hash t key of
        Inl e \<Rightarrow> Inl e
      | Inr index \<Rightarrow>
     (case ContainsKey t key of
        Inl e \<Rightarrow> Inl e
      | Inr present \<Rightarrow>
          (if present
           then Inr (t\<lparr>m_buckets :=
                  (m_buckets t)[nat index := overwrite (m_buckets t ! nat index) key val]\<rparr>)
           else if m_num_keys t = INT_MAX then Inl IntegerOverflow
           else Inr (t\<lparr>m_buckets :=
                  (m_buckets t)[nat index := m_buckets t ! nat index @ [(key, val)]],
                  m_num_keys := m_num_keys t + 1\<rparr>))))"

text \<open>
  \<^verbatim>\<open>Put\<close>: the block above, and after both of its branches the test
  \<^verbatim>\<open>static_cast<double>(num_keys_) / buckets_.size() >= load_factor_\<close> that guards the
  resize block. The test is reached only after the index was computed, that is with at
  least one bucket, so the quotient never has a zero divisor.
\<close>

definition Put :: "HashTable \<Rightarrow> int \<Rightarrow> string \<Rightarrow> error + HashTable" where
  "Put t key val =
     (case put_entry t key val of
        Inl e \<Rightarrow> Inl e
      | Inr t1 \<Rightarrow>
          (if m_load_factor t1 \<le> double_div (m_num_keys t1) (length (m_buckets t1))
           then grow t1 else Inr t1))"

subsection \<open>Remove\<close>

text \<open>\<^verbatim>\<open>buckets_[index].erase(iterator)\<close> at the first pair whose key matches.\<close>

fun erase_first :: "bucket \<Rightarrow> int \<Rightarrow> bucket" where
  "erase_first [] key = []"
| "erase_first ((k, v) # ps) key = (if k = key then ps else (k, v) # erase_first ps key)"

text \<open>
  \<^verbatim>\<open>Remove\<close>: when \<^verbatim>\<open>ContainsKey(key)\<close> holds, the loop stops at the first matching pair,
  erases it, decrements \<^verbatim>\<open>num_keys_\<close> and returns the value; every other path returns
  \<^verbatim>\<open>std::nullopt\<close> and leaves the table as it is.
\<close>

definition Remove :: "HashTable \<Rightarrow> int \<Rightarrow> error + (string option \<times> HashTable)" where
  "Remove t key =
     (case hash t key of
        Inl e \<Rightarrow> Inl e
      | Inr index \<Rightarrow>
     (case ContainsKey t key of
        Inl e \<Rightarrow> Inl e
      | Inr present \<Rightarrow>
          (if present
           then (case find_value (m_buckets t ! nat index) key of
                   None \<Rightarrow> Inr (None, t)
                 | Some deletedElem \<Rightarrow>
                     (if m_num_keys t = INT_MIN then Inl IntegerOverflow
                      else Inr (Some deletedElem,
                             t\<lparr>m_buckets :=
                                 (m_buckets t)[nat index := erase_first (m_buckets t ! nat index) key],
                               m_num_keys := m_num_keys t - 1\<rparr>)))
           else Inr (None, t))))"

section \<open>Sequences of calls, reachable tables and their invariant\<close>

text \<open>A run of \<^verbatim>\<open>Put\<close> calls, one per pair, stopping at the first failure.\<close>

fun put_all :: "HashTable \<Rightarrow> (int \<times> string) list \<Rightarrow> error + HashTable" where
  "put_all t [] = Inr t"
| "put_all t ((k, v) # kvs) =
     (case Put t k v of Inl e \<Rightarrow> Inl e | Inr t' \<Rightarrow> put_all t' kvs)"

text \<open>
  The tables a program can hold: the result of a successful construction (the capacity is
  an \<^verbatim>\<open>int\<close> and the load factor a finite \<^verbatim>\<open>double\<close>), and the result of every
  \<^verbatim>\<open>Put\<close> and \<^verbatim>\<open>Remove\<close> that returns, with any key.
\<close>

inductive reachable :: "HashTable \<Rightarrow> bool" where
  constructed:
    "INT_MIN \<le> cap \<Longrightarrow> cap \<le> INT_MAX \<Longrightarrow> is_double lf \<Longrightarrow> New cap lf = Inr t \<Longrightarrow> reachable t"
| after_Put:
    "reachable t \<Longrightarrow> Put t key val = Inr t' \<Longrightarrow> reachable t'"
| after_Remove:
    "reachable t \<Longrightarrow> Remove t key = Inr (r, t') \<Longrightarrow> reachable t'"

text \<open>
  The tables that a given table \<open>t0\<close> can become: \<open>t0\<close> itself, and the result of every
  \<^verbatim>\<open>Put\<close> and \<^verbatim>\<open>Remove\<close> that returns on such a table.
\<close>

inductive reachable_from :: "HashTable \<Rightarrow> HashTable \<Rightarrow> bool" for t0 :: HashTable where
  at_start:
    "reachable_from t0 t0"
| then_Put:
    "reachable_from t0 t \<Longrightarrow> Put t key val = Inr t' \<Longrightarrow> reachable_from t0 t'"
| then_Remove:
    "reachable_from t0 t \<Longrightarrow> Remove t key = Inr (r, t') \<Longrightarrow> reachable_from t0 t'"

text \<open>
  \<open>placed bs\<close>: every pair sits in the bucket whose index is the hash of its key against
  the number of buckets. \<open>lookup bs k\<close> reads the bucket the key hashes to, and is
  \<open>None\<close> where that index does not exist.
\<close>

definition placed :: "bucket list \<Rightarrow> bool" where
  "placed bs \<longleftrightarrow>
     (\<forall>i < length bs. \<forall>p \<in> set (bs ! i). utils_hash (fst p) (int (length bs)) = Inr (int i))"

definition lookup :: "bucket list \<Rightarrow> int \<Rightarrow> string option" where
  "lookup bs k =
     (case utils_hash k (int (length bs)) of
        Inl e \<Rightarrow> None
      | Inr h \<Rightarrow> (if 0 \<le> h \<and> h < int (length bs) then find_value (bs ! nat h) k else None))"

text \<open>\<open>has_bucket bs k\<close>: the hash of \<open>k\<close> is defined and is an index of \<open>bs\<close>.\<close>

definition has_bucket :: "bucket list \<Rightarrow> int \<Rightarrow> bool" where
  "has_bucket bs k =
     (case utils_hash k (int (length bs)) of
        Inl e \<Rightarrow> False
      | Inr h \<Rightarrow> 0 \<le> h \<and> h < int (length bs))"

definition invar :: "HashTable \<Rightarrow> bool" where
  "invar t \<longleftrightarrow>
     0 < length (m_buckets t) \<and> int (length (m_buckets t)) \<le> INT_MAX \<and>
     m_num_keys t = int (length (concat (m_buckets t))) \<and>
     m_num_keys t < int (length (m_buckets t)) \<and>
     placed (m_buckets t) \<and>
     (\<forall>b \<in> set (m_buckets t). distinct (map fst b)) \<and>
     0 < m_load_factor t \<and> m_load_factor t \<le> 1 \<and> is_double (m_load_factor t)"

section \<open>Rounding of the quotient\<close>

lemma binade_bounds:
  assumes "0 < x"
  shows "2 powi binade x \<le> x" and "x < 2 powi (binade x + 1)"
proof -
  define p where "p = fst (quotient_of x)"
  define q where "q = snd (quotient_of x)"
  define a where "a = bitlen p"
  define b where "b = bitlen q"
  have q: "0 < q"
    unfolding q_def by (rule quotient_of_denom_pos')
  have x: "x = of_int p / of_int q"
    using quotient_of_div [of x p q] by (simp add: p_def q_def)
  have p: "0 < p"
    using assms q by (simp add: x zero_less_divide_iff)
  have a1: "1 \<le> a" and b1: "1 \<le> b"
    using p q bitlen_eq_zero_iff [of p] bitlen_eq_zero_iff [of q] bitlen_nonneg [of p]
      bitlen_nonneg [of q] by (auto simp: a_def b_def)
  have pa: "(2::rat) ^ nat (a - 1) \<le> of_int p" "of_int p < (2::rat) ^ nat a"
    using bitlen_bounds [OF p] unfolding a_def
    by (metis of_int_le_iff of_int_numeral of_int_power, metis of_int_less_iff of_int_numeral of_int_power)
  have qb: "(2::rat) ^ nat (b - 1) \<le> of_int q" "of_int q < (2::rat) ^ nat b"
    using bitlen_bounds [OF q] unfolding b_def
    by (metis of_int_le_iff of_int_numeral of_int_power, metis of_int_less_iff of_int_numeral of_int_power)
  have P: "(0::rat) < of_int p" and Q: "(0::rat) < of_int q"
    using p q by simp_all
  have pw: "(2::rat) powi a = 2 ^ nat a" "(2::rat) powi (a - 1) = 2 ^ nat (a - 1)"
    "(2::rat) powi b = 2 ^ nat b" "(2::rat) powi (b - 1) = 2 ^ nat (b - 1)"
    using a1 b1 by (simp_all add: power_int_def)
  have "(2::rat) powi (a - 1 - b) = 2 powi (a - 1) / 2 powi b"
    by (rule power_int_diff) simp
  then have e_lo: "(2::rat) powi (a - b - 1) = 2 ^ nat (a - 1) / 2 ^ nat b"
    by (simp add: pw algebra_simps)
  have "(2::rat) powi (a - (b - 1)) = 2 powi a / 2 powi (b - 1)"
    by (rule power_int_diff) simp
  then have e_hi: "(2::rat) powi (a - b + 1) = 2 ^ nat a / 2 ^ nat (b - 1)"
    by (simp add: pw algebra_simps)
  have "(2::rat) ^ nat (a - 1) * of_int q \<le> of_int p * of_int q"
    using pa(1) Q by simp
  also have "\<dots> < of_int p * 2 ^ nat b"
    using qb(2) P by simp
  finally have "(2::rat) ^ nat (a - 1) / 2 ^ nat b < of_int p / of_int q"
    using Q by (simp add: field_simps)
  then have lo: "(2::rat) powi (a - b - 1) < x"
    unfolding e_lo x .
  have "of_int p * (2::rat) ^ nat (b - 1) < 2 ^ nat a * 2 ^ nat (b - 1)"
    using pa(2) by simp
  also have "\<dots> \<le> 2 ^ nat a * of_int q"
    using qb(1) by simp
  finally have "of_int p / of_int q < (2::rat) ^ nat a / 2 ^ nat (b - 1)"
    using Q by (simp add: field_simps)
  then have hi: "x < (2::rat) powi (a - b + 1)"
    unfolding e_hi x .
  have bin: "binade x = (if 2 powi (a - b) \<le> x then a - b else a - b - 1)"
    by (simp add: binade_def Let_def a_def b_def p_def q_def)
  show "2 powi binade x \<le> x"
    using lo by (simp add: bin)
  show "x < 2 powi (binade x + 1)"
    using hi by (auto simp: bin)
qed

lemma binade_unique:
  assumes "0 < x" "2 powi e \<le> x" "x < 2 powi (e + 1)"
  shows "binade x = e"
proof (rule ccontr)
  assume ne: "binade x \<noteq> e"
  show False
  proof (cases "binade x < e")
    case True
    then have "(2::rat) powi (binade x + 1) \<le> 2 powi e"
      by (intro power_int_increasing) auto
    with binade_bounds(2) [OF assms(1)] assms(2) show False by simp
  next
    case False
    with ne have "(2::rat) powi (e + 1) \<le> 2 powi binade x"
      by (intro power_int_increasing) auto
    with binade_bounds(1) [OF assms(1)] assms(3) show False by simp
  qed
qed

lemma round_half_even_mono:
  assumes "x \<le> y"
  shows "round_half_even x \<le> round_half_even y"
proof (cases "\<lfloor>x\<rfloor> = \<lfloor>y\<rfloor>")
  case True
  with assms show ?thesis
    by (auto simp: round_half_even_def Let_def)
next
  case False
  with assms have "\<lfloor>x\<rfloor> + 1 \<le> \<lfloor>y\<rfloor>"
    using floor_mono [OF assms] by linarith
  moreover have "round_half_even x \<le> \<lfloor>x\<rfloor> + 1"
    by (simp add: round_half_even_def Let_def)
  moreover have "\<lfloor>y\<rfloor> \<le> round_half_even y"
    by (simp add: round_half_even_def Let_def)
  ultimately show ?thesis by linarith
qed

lemma round_half_even_of_int [simp]: "round_half_even (of_int m) = m"
  by (simp add: round_half_even_def)


lemma round_double_pos:
  "0 < x \<Longrightarrow>
     round_double x =
       of_int (round_half_even (x / 2 powi (binade x - 52))) * 2 powi (binade x - 52)"
  by (simp add: round_double_def Let_def)

lemma binade_ulp:
  "(2::rat) powi binade x = 2 ^ 52 * 2 powi (binade x - 52)"
  "(2::rat) powi (binade x + 1) = 2 ^ 53 * 2 powi (binade x - 52)"
proof -
  have "(2::rat) powi (binade x - 52) = 2 powi binade x / 2 powi 52"
    by (rule power_int_diff) simp
  then show "(2::rat) powi binade x = 2 ^ 52 * 2 powi (binade x - 52)"
    by simp
  have "(2::rat) powi (binade x + 1 - 53) = 2 powi (binade x + 1) / 2 powi 53"
    by (rule power_int_diff) simp
  then show "(2::rat) powi (binade x + 1) = 2 ^ 53 * 2 powi (binade x - 52)"
    by simp
qed

lemma round_double_bounds:
  assumes "0 < x"
  shows "2 powi binade x \<le> round_double x" and "round_double x \<le> 2 powi (binade x + 1)"
proof -
  define u where "u = (2::rat) powi (binade x - 52)"
  have u: "0 < u"
    by (simp add: u_def)
  have "2 ^ 52 * u \<le> x" and "x < 2 ^ 53 * u"
    using binade_bounds [OF assms] by (simp_all add: binade_ulp u_def)
  then have "of_int (2 ^ 52) \<le> x / u" and "x / u \<le> of_int (2 ^ 53)"
    using u by (simp_all add: field_simps)
  then have "round_half_even (of_int (2 ^ 52)) \<le> round_half_even (x / u)"
    and "round_half_even (x / u) \<le> round_half_even (of_int (2 ^ 53))"
    by (simp_all only: round_half_even_mono)
  then have "2 ^ 52 \<le> round_half_even (x / u)" and "round_half_even (x / u) \<le> 2 ^ 53"
    by (simp_all only: round_half_even_of_int)
  then have "(2::rat) ^ 52 \<le> of_int (round_half_even (x / u))"
    and "of_int (round_half_even (x / u)) \<le> (2::rat) ^ 53"
    by (metis of_int_le_iff of_int_numeral of_int_power)+
  then have "2 ^ 52 * u \<le> of_int (round_half_even (x / u)) * u"
    and "of_int (round_half_even (x / u)) * u \<le> 2 ^ 53 * u"
    using u by simp_all
  then show "2 powi binade x \<le> round_double x"
    and "round_double x \<le> 2 powi (binade x + 1)"
    using assms by (simp_all add: round_double_pos binade_ulp u_def)
qed

lemma round_double_mono_pos:
  assumes "0 < x" "x \<le> y"
  shows "round_double x \<le> round_double y"
proof -
  have y: "0 < y"
    using assms by simp
  have le: "binade x \<le> binade y"
  proof (rule ccontr)
    assume "\<not> binade x \<le> binade y"
    then have "(2::rat) powi (binade y + 1) \<le> 2 powi binade x"
      by (intro power_int_increasing) auto
    with binade_bounds(2) [OF y] binade_bounds(1) [OF assms(1)] assms(2) show False
      by simp
  qed
  show ?thesis
  proof (cases "binade x = binade y")
    case True
    define u where "u = (2::rat) powi (binade y - 52)"
    have u: "0 < u"
      by (simp add: u_def)
    then have "x / u \<le> y / u"
      using assms(2) by (simp add: divide_right_mono)
    then have "round_half_even (x / u) \<le> round_half_even (y / u)"
      by (rule round_half_even_mono)
    then have "of_int (round_half_even (x / u)) * u \<le> of_int (round_half_even (y / u)) * u"
      using u by simp
    then show ?thesis
      using assms(1) y by (simp add: round_double_pos True u_def)
  next
    case False
    with le have "(2::rat) powi (binade x + 1) \<le> 2 powi binade y"
      by (intro power_int_increasing) auto
    with round_double_bounds(2) [OF assms(1)] round_double_bounds(1) [OF y] show ?thesis
      by simp
  qed
qed

lemma round_double_mono:
  assumes "0 \<le> x" "x \<le> y"
  shows "round_double x \<le> round_double y"
proof (cases "x = 0")
  case True
  show ?thesis
  proof (cases "y = 0")
    case True
    with \<open>x = 0\<close> show ?thesis by simp
  next
    case False
    with assms \<open>x = 0\<close> have "0 < y" by simp
    from round_double_bounds(1) [OF this] have "0 \<le> round_double y"
      by (meson dual_order.trans less_eq_rat_def zero_less_numeral zero_less_power_int)
    with \<open>x = 0\<close> show ?thesis
      by (simp add: round_double_def)
  qed
next
  case False
  with assms show ?thesis
    by (intro round_double_mono_pos) simp_all
qed

lemma round_double_half:
  assumes "0 < x"
  shows "round_double (x / 2) = round_double x / 2"
proof -
  have "(2::rat) powi (binade x - 1) = 2 powi binade x / 2 powi 1"
    by (rule power_int_diff) simp
  then have h: "(2::rat) powi (binade x - 1) = 2 powi binade x / 2"
    by simp
  have h': "(2::rat) powi (binade x + 1) = 2 powi binade x * 2"
    by (simp add: power_int_add)
  have b: "binade (x / 2) = binade x - 1"
    using assms binade_bounds [OF assms]
    by (intro binade_unique) (simp_all add: h h')
  have "(2::rat) powi (binade x - 52 - 1) = 2 powi (binade x - 52) / 2 powi 1"
    by (rule power_int_diff) simp
  then have u: "(2::rat) powi (binade x - 53) = 2 powi (binade x - 52) / 2"
    by simp
  show ?thesis
    using assms by (simp add: round_double_pos b u)
qed

lemma is_double_1: "is_double 1"
  by (simp add: is_double_def round_double_def binade_def round_half_even_def Let_def)

lemma double_div_ge:
  assumes "is_double lf" "0 < lf" "lf \<le> of_int n / of_nat c"
  shows "lf \<le> double_div n c"
  using round_double_mono_pos [OF assms(2,3)] assms(1)
  by (simp add: double_div_def is_double_def)

lemma double_div_below_half:
  assumes "is_double lf" "0 < lf" "0 \<le> n" "of_int n / of_nat c \<le> lf / 2"
  shows "double_div n c < lf"
proof -
  have "0 \<le> of_int n / (of_nat c :: rat)"
    using assms(3) by simp
  from round_double_mono [OF this assms(4)]
  have "double_div n c \<le> lf / 2"
    using assms(1,2) by (simp add: double_div_def round_double_half is_double_def)
  with assms(2) show ?thesis
    by simp
qed

section \<open>Buckets as association lists\<close>

lemma find_value_map_of: "find_value b k = map_of b k"
  by (induction b) auto

lemma find_value_None_iff: "find_value b k = None \<longleftrightarrow> k \<notin> fst ` set b"
  by (simp add: find_value_map_of map_of_eq_None_iff)

lemma find_value_Some_mem: "find_value b k = Some v \<Longrightarrow> (k, v) \<in> set b"
  by (simp add: find_value_map_of map_of_SomeD)

lemma find_value_distinct: "distinct (map fst b) \<Longrightarrow> (k, v) \<in> set b \<Longrightarrow> find_value b k = Some v"
  by (simp add: find_value_map_of)

lemma map_fst_overwrite [simp]: "map fst (overwrite b k v) = map fst b"
  by (induction b k v rule: overwrite.induct) auto

lemma length_overwrite [simp]: "length (overwrite b k v) = length b"
  by (induction b k v rule: overwrite.induct) auto

lemma find_value_overwrite:
  "find_value (overwrite b k v) k' =
     (if k' = k then map_option (\<lambda>_. v) (find_value b k) else find_value b k')"
  by (induction b k v rule: overwrite.induct) auto

lemma find_value_append:
  "find_value (b @ [(k, v)]) k' =
     (case find_value b k' of Some x \<Rightarrow> Some x | None \<Rightarrow> if k' = k then Some v else None)"
  by (induction b) auto

lemma find_value_erase_first_other:
  "k' \<noteq> k \<Longrightarrow> find_value (erase_first b k) k' = find_value b k'"
  by (induction b k rule: erase_first.induct) auto

lemma set_erase_first: "set (erase_first b k) \<subseteq> set b"
  by (induction b k rule: erase_first.induct) auto

lemma distinct_erase_first: "distinct (map fst b) \<Longrightarrow> distinct (map fst (erase_first b k))"
  using set_erase_first by (induction b k rule: erase_first.induct) force+

lemma find_value_erase_first_same:
  "distinct (map fst b) \<Longrightarrow> find_value (erase_first b k) k = None"
  by (induction b k rule: erase_first.induct) (auto simp: find_value_None_iff)

lemma length_erase_first:
  "find_value b k = Some v \<Longrightarrow> length (erase_first b k) + 1 = length b"
  by (induction b k rule: erase_first.induct) (auto split: if_splits)

lemma length_concat_update:
  "i < length bs \<Longrightarrow>
     length (concat (bs[i := b])) + length (bs ! i) = length (concat bs) + length b"
proof (induction bs arbitrary: i)
  case Nil
  then show ?case by simp
next
  case (Cons a bs)
  then show ?case by (cases i) auto
qed

lemma utils_hash_nonneg:
  "0 \<le> k \<Longrightarrow> 0 < n \<Longrightarrow> utils_hash k n = Inr (k mod n)"
  by (simp add: utils_hash_def smod_int_alt_def sgn_if)

lemma placed_update:
  assumes "placed bs" "i < length bs"
    and "\<forall>p \<in> set b. utils_hash (fst p) (int (length bs)) = Inr (int i)"
  shows "placed (bs[i := b])"
  using assms by (auto simp: placed_def nth_list_update)

lemma distinct_update:
  assumes "\<forall>b \<in> set bs. distinct (map fst b)" "distinct (map fst b')"
  shows "\<forall>b \<in> set (bs[i := b']). distinct (map fst b)"
  using assms set_update_subset_insert [of bs i b'] by auto

lemma placed_keys_distinct_gen:
  assumes "\<forall>i < length bs. \<forall>p \<in> set (bs ! i). h (fst p) = Inr (int (i + off))"
    and "\<forall>b \<in> set bs. distinct (map fst b)"
  shows "distinct (map fst (concat bs))"
  using assms
proof (induction bs arbitrary: off)
  case Nil
  then show ?case by simp
next
  case (Cons b bs)
  have tl: "\<forall>i < length bs. \<forall>p \<in> set (bs ! i). h (fst p) = Inr (int (i + Suc off))"
    using Cons.prems(1) by fastforce
  have hd: "\<forall>p \<in> set b. h (fst p) = Inr (int off)"
    using Cons.prems(1) by fastforce
  have "distinct (map fst (concat bs))"
    using Cons.IH [OF tl] Cons.prems(2) by simp
  moreover have "set (map fst b) \<inter> set (map fst (concat bs)) = {}"
  proof (rule ccontr)
    assume "set (map fst b) \<inter> set (map fst (concat bs)) \<noteq> {}"
    then obtain k where "k \<in> set (map fst b)" and "k \<in> set (map fst (concat bs))"
      by blast
    then obtain p q where p: "p \<in> set b" "fst p = k"
      and q: "q \<in> set (concat bs)" "fst q = k"
      by (metis (no_types, lifting) imageE list.set_map)
    from q(1) obtain c where "c \<in> set bs" "q \<in> set c"
      by auto
    then obtain i where "i < length bs" "q \<in> set (bs ! i)"
      by (metis in_set_conv_nth)
    with tl have "h (fst q) = Inr (int (i + Suc off))" by blast
    with hd p q(2) show False by auto
  qed
  moreover have "distinct (map fst b)"
    using Cons.prems(2) by simp
  ultimately show ?case
    by simp
qed

lemma placed_keys_distinct:
  assumes "placed bs" "\<forall>b \<in> set bs. distinct (map fst b)"
  shows "distinct (map fst (concat bs))"
  using placed_keys_distinct_gen [of bs "\<lambda>k. utils_hash k (int (length bs))" 0] assms
  by (simp add: placed_def)

lemma placed_mem:
  assumes "placed bs" "p \<in> set (concat bs)"
  shows "\<exists>i < length bs. utils_hash (fst p) (int (length bs)) = Inr (int i) \<and> p \<in> set (bs ! i)"
proof -
  from assms(2) obtain c where "c \<in> set bs" "p \<in> set c"
    by auto
  then obtain i where i: "i < length bs" "p \<in> set (bs ! i)"
    by (metis in_set_conv_nth)
  with assms(1) have "utils_hash (fst p) (int (length bs)) = Inr (int i)"
    by (simp add: placed_def)
  with i show ?thesis by blast
qed

lemma nth_concat_mem: "i < length bs \<Longrightarrow> p \<in> set (bs ! i) \<Longrightarrow> p \<in> set (concat bs)"
  using nth_mem by fastforce

lemma lookup_map_of:
  assumes "placed bs" "\<forall>b \<in> set bs. distinct (map fst b)"
  shows "lookup bs k = map_of (concat bs) k"
proof (cases "map_of (concat bs) k")
  case None
  then have nk: "k \<notin> fst ` set (concat bs)"
    by (simp add: map_of_eq_None_iff)
  have "lookup bs k = None"
  proof (rule ccontr)
    assume "lookup bs k \<noteq> None"
    then obtain v where "lookup bs k = Some v" by auto
    then obtain h where "0 \<le> h" "h < int (length bs)" "find_value (bs ! nat h) k = Some v"
      by (auto simp: lookup_def split: sum.splits if_splits)
    then have "(k, v) \<in> set (bs ! nat h)" "nat h < length bs"
      by (auto dest: find_value_Some_mem)
    then have "(k, v) \<in> set (concat bs)"
      by (intro nth_concat_mem [of "nat h"])
    with nk show False by force
  qed
  with None show ?thesis by simp
next
  case (Some v)
  then have "(k, v) \<in> set (concat bs)"
    by (rule map_of_SomeD)
  from placed_mem [OF assms(1) this] obtain i where
    i: "i < length bs" "utils_hash k (int (length bs)) = Inr (int i)" "(k, v) \<in> set (bs ! i)"
    by auto
  have "distinct (map fst (bs ! i))"
    using assms(2) i(1) by simp
  with i have "lookup bs k = Some v"
    by (simp add: lookup_def find_value_distinct)
  with Some show ?thesis by simp
qed

section \<open>The table operations on well-formed buckets\<close>

lemma has_bucket_nonneg: "0 \<le> k \<Longrightarrow> 0 < length bs \<Longrightarrow> has_bucket bs k"
  by (simp add: has_bucket_def utils_hash_nonneg)

lemma has_bucket_length: "length bs = length bs' \<Longrightarrow> has_bucket bs k = has_bucket bs' k"
  by (simp add: has_bucket_def split: sum.splits)

lemma has_bucket_stored:
  assumes "placed bs" "p \<in> set (concat bs)"
  shows "has_bucket bs (fst p)"
  using placed_mem [OF assms] by (auto simp: has_bucket_def)

lemma lookup_no_bucket: "\<not> has_bucket bs k \<Longrightarrow> lookup bs k = None"
  by (auto simp: has_bucket_def lookup_def split: sum.splits)

lemma lookup_Some_has_bucket: "lookup bs k = Some v \<Longrightarrow> has_bucket bs k"
  using lookup_no_bucket by fastforce

lemma Search_has_bucket:
  "has_bucket (m_buckets t) k \<Longrightarrow> Search t k = Inr (lookup (m_buckets t) k)"
  by (auto simp: has_bucket_def lookup_def Search_def hash_def capacity_def bucket_at_def
      split: sum.splits)

lemma Search_Inr_D:
  "Search t k = Inr r \<Longrightarrow> has_bucket (m_buckets t) k \<and> r = lookup (m_buckets t) k"
  by (auto simp: has_bucket_def lookup_def Search_def hash_def capacity_def bucket_at_def
      split: sum.splits if_splits)

lemma Search_no_bucket:
  "\<not> has_bucket (m_buckets t) k \<Longrightarrow> isl (Search t k)"
  by (cases "Search t k") (auto dest: Search_Inr_D)

lemma lookup_nth:
  "utils_hash k (int (length bs)) = Inr h \<Longrightarrow> 0 \<le> h \<Longrightarrow> h < int (length bs) \<Longrightarrow>
     lookup bs k = find_value (bs ! nat h) k"
  by (simp add: lookup_def)

lemma put_entry_cases:
  assumes "put_entry t k v = Inr t1"
  obtains (update) h where "utils_hash k (int (length (m_buckets t))) = Inr h"
      "0 \<le> h" "h < int (length (m_buckets t))"
      "find_value (m_buckets t ! nat h) k \<noteq> None"
      "t1 = t\<lparr>m_buckets := (m_buckets t)[nat h := overwrite (m_buckets t ! nat h) k v]\<rparr>"
  | (insert) h where "utils_hash k (int (length (m_buckets t))) = Inr h"
      "0 \<le> h" "h < int (length (m_buckets t))"
      "find_value (m_buckets t ! nat h) k = None" "m_num_keys t \<noteq> INT_MAX"
      "t1 = t\<lparr>m_buckets := (m_buckets t)[nat h := m_buckets t ! nat h @ [(k, v)]],
              m_num_keys := m_num_keys t + 1\<rparr>"
  using assms
  by (auto simp: put_entry_def ContainsKey_def Search_def hash_def capacity_def bucket_at_def
      split: sum.splits if_splits)

lemma put_entry_succeeds:
  assumes "has_bucket (m_buckets t) k" "m_num_keys t < INT_MAX"
  shows "\<exists>t1. put_entry t k v = Inr t1"
  using assms
  by (auto simp: put_entry_def ContainsKey_def Search_def hash_def capacity_def bucket_at_def
      has_bucket_def split: sum.splits if_splits)

lemma put_entry_length:
  "put_entry t k v = Inr t1 \<Longrightarrow> length (m_buckets t1) = length (m_buckets t)"
  by (erule put_entry_cases) auto

lemma put_entry_load_factor:
  "put_entry t k v = Inr t1 \<Longrightarrow> m_load_factor t1 = m_load_factor t"
  by (erule put_entry_cases) auto

lemma put_entry_has_bucket:
  "put_entry t k v = Inr t1 \<Longrightarrow> has_bucket (m_buckets t) k"
  by (erule put_entry_cases) (auto simp: has_bucket_def)

lemma put_entry_num_keys:
  "put_entry t k v = Inr t1 \<Longrightarrow>
     m_num_keys t1 = m_num_keys t + (if lookup (m_buckets t) k = None then 1 else 0)"
  by (erule put_entry_cases) (auto simp: lookup_def)

lemma put_entry_lookup:
  assumes "put_entry t k v = Inr t1"
  shows "lookup (m_buckets t1) k' = (if k' = k then Some v else lookup (m_buckets t) k')"
  using assms
proof (cases rule: put_entry_cases)
  case (update h)
  then show ?thesis
    by (auto simp: lookup_def nth_list_update find_value_overwrite split: sum.splits)
next
  case (insert h)
  then show ?thesis
    by (auto simp: lookup_def nth_list_update find_value_append split: sum.splits option.splits)
qed

lemma put_entry_placed:
  assumes "put_entry t k v = Inr t1" "placed (m_buckets t)"
  shows "placed (m_buckets t1)"
  using assms
proof (cases rule: put_entry_cases)
  case (update h)
  have "\<forall>p \<in> set (overwrite (m_buckets t ! nat h) k v).
          utils_hash (fst p) (int (length (m_buckets t))) = Inr (int (nat h))"
  proof
    fix p assume "p \<in> set (overwrite (m_buckets t ! nat h) k v)"
    then have "fst p \<in> set (map fst (overwrite (m_buckets t ! nat h) k v))"
      by (metis image_eqI list.set_map)
    then obtain q where "q \<in> set (m_buckets t ! nat h)" "fst q = fst p"
      by auto
    moreover have "nat h < length (m_buckets t)"
      using update(2,3) by simp
    ultimately show "utils_hash (fst p) (int (length (m_buckets t))) = Inr (int (nat h))"
      using assms(2) unfolding placed_def by metis
  qed
  with update assms(2) show ?thesis
    by (simp add: placed_update)
next
  case (insert h)
  have "nat h < length (m_buckets t)"
    using insert(2,3) by simp
  then have "\<forall>p \<in> set (m_buckets t ! nat h).
          utils_hash (fst p) (int (length (m_buckets t))) = Inr (int (nat h))"
    using assms(2) unfolding placed_def by blast
  with insert(1,2) have "\<forall>p \<in> set (m_buckets t ! nat h @ [(k, v)]).
          utils_hash (fst p) (int (length (m_buckets t))) = Inr (int (nat h))"
    by simp
  with insert assms(2) show ?thesis
    by (simp add: placed_update)
qed

lemma put_entry_distinct:
  assumes "put_entry t k v = Inr t1" "\<forall>b \<in> set (m_buckets t). distinct (map fst b)"
  shows "\<forall>b \<in> set (m_buckets t1). distinct (map fst b)"
  using assms
proof (cases rule: put_entry_cases)
  case (update h)
  have "nat h < length (m_buckets t)"
    using update(2,3) by simp
  then have "distinct (map fst (overwrite (m_buckets t ! nat h) k v))"
    using assms(2) by simp
  with update show ?thesis
    using distinct_update [OF assms(2), of "overwrite (m_buckets t ! nat h) k v" "nat h"] by simp
next
  case (insert h)
  have "nat h < length (m_buckets t)"
    using insert(2,3) by simp
  then have "distinct (map fst (m_buckets t ! nat h))"
    using assms(2) by simp
  then have "distinct (map fst (m_buckets t ! nat h @ [(k, v)]))"
    using insert(4) by (auto simp: find_value_None_iff)
  with insert show ?thesis
    using distinct_update [OF assms(2), of "m_buckets t ! nat h @ [(k, v)]" "nat h"] by simp
qed

lemma put_entry_count:
  assumes "put_entry t k v = Inr t1" "m_num_keys t = int (length (concat (m_buckets t)))"
  shows "m_num_keys t1 = int (length (concat (m_buckets t1)))"
  using assms
proof (cases rule: put_entry_cases)
  case (update h)
  with length_concat_update [of "nat h" "m_buckets t" "overwrite (m_buckets t ! nat h) k v"]
  show ?thesis using assms(2) by simp
next
  case (insert h)
  with length_concat_update [of "nat h" "m_buckets t" "m_buckets t ! nat h @ [(k, v)]"]
  show ?thesis using assms(2) by simp
qed


lemma mset_concat_update_append:
  "i < length nb \<Longrightarrow> mset (concat (nb[i := nb ! i @ [p]])) = mset (concat nb) + {#p#}"
proof (induction nb arbitrary: i)
  case Nil
  then show ?case by simp
next
  case (Cons a nb)
  then show ?case by (cases i) auto
qed

lemma rehash_bucket_length:
  "rehash_bucket ps nb = Inr nb' \<Longrightarrow> length nb' = length nb"
  by (induction ps nb rule: rehash_bucket.induct) (auto split: sum.splits if_splits)

lemma rehash_bucket_mset:
  "rehash_bucket ps nb = Inr nb' \<Longrightarrow> mset (concat nb') = mset (concat nb) + mset ps"
  by (induction ps nb rule: rehash_bucket.induct)
    (auto split: sum.splits if_splits simp: mset_concat_update_append)

lemma rehash_bucket_placed:
  "rehash_bucket ps nb = Inr nb' \<Longrightarrow> placed nb \<Longrightarrow> placed nb'"
proof (induction ps nb rule: rehash_bucket.induct)
  case (1 nb)
  then show ?case by simp
next
  case (2 p ps nb)
  from "2.prems"(1) obtain h where h: "utils_hash (fst p) (int (length nb)) = Inr h"
    "0 \<le> h" "h < int (length nb)"
    and rec: "rehash_bucket ps (nb[nat h := nb ! nat h @ [p]]) = Inr nb'"
    by (auto split: sum.splits if_splits)
  have "nat h < length nb"
    using h by simp
  moreover from this have "\<forall>q \<in> set (nb ! nat h @ [p]).
      utils_hash (fst q) (int (length nb)) = Inr (int (nat h))"
    using "2.prems"(2) h unfolding placed_def by auto
  ultimately have "placed (nb[nat h := nb ! nat h @ [p]])"
    using "2.prems"(2) by (intro placed_update)
  with "2.IH" h rec show ?case by simp
qed

lemma rehash_bucket_succeeds:
  "\<forall>p \<in> set ps. has_bucket nb (fst p) \<Longrightarrow> \<exists>nb'. rehash_bucket ps nb = Inr nb'"
proof (induction ps nb rule: rehash_bucket.induct)
  case (1 nb)
  then show ?case by simp
next
  case (2 p ps nb)
  from "2.prems" obtain h where h: "utils_hash (fst p) (int (length nb)) = Inr h"
    "0 \<le> h" "h < int (length nb)"
    by (auto simp: has_bucket_def split: sum.splits)
  have "\<forall>q \<in> set ps. has_bucket (nb[nat h := nb ! nat h @ [p]]) (fst q)"
    using "2.prems" has_bucket_length [of "nb[nat h := nb ! nat h @ [p]]" nb] by simp
  with "2.IH" h show ?case by simp
qed

lemma rehash_all_length:
  "rehash_all bs nb = Inr nb' \<Longrightarrow> length nb' = length nb"
  by (induction bs nb rule: rehash_all.induct)
    (auto split: sum.splits dest: rehash_bucket_length)

lemma rehash_all_mset:
  "rehash_all bs nb = Inr nb' \<Longrightarrow> mset (concat nb') = mset (concat nb) + mset (concat bs)"
  by (induction bs nb rule: rehash_all.induct)
    (auto split: sum.splits dest: rehash_bucket_mset)

lemma rehash_all_placed:
  "rehash_all bs nb = Inr nb' \<Longrightarrow> placed nb \<Longrightarrow> placed nb'"
  by (induction bs nb rule: rehash_all.induct)
    (auto split: sum.splits dest: rehash_bucket_placed)

lemma rehash_all_succeeds:
  "\<forall>p \<in> set (concat bs). has_bucket nb (fst p) \<Longrightarrow> \<exists>nb'. rehash_all bs nb = Inr nb'"
proof (induction bs nb rule: rehash_all.induct)
  case (1 nb)
  then show ?case by simp
next
  case (2 b bs nb)
  then have "\<forall>p \<in> set b. has_bucket nb (fst p)"
    by simp
  from rehash_bucket_succeeds [OF this] obtain nb1 where nb1: "rehash_bucket b nb = Inr nb1"
    by blast
  then have "length nb1 = length nb"
    by (rule rehash_bucket_length)
  then have "\<forall>p \<in> set (concat bs). has_bucket nb1 (fst p)"
    using "2.prems" has_bucket_length [of nb1 nb] by simp
  with "2.IH" nb1 show ?case by simp
qed

lemma placed_replicate: "placed (replicate n [])"
  by (simp add: placed_def)

lemma distinct_keys_bucket:
  "distinct (map fst (concat bs)) \<Longrightarrow> b \<in> set bs \<Longrightarrow> distinct (map fst b)"
  by (induction bs) auto


lemma grow_cases:
  assumes "grow t = Inr t'"
  obtains nb where "2 * int (length (m_buckets t)) \<le> INT_MAX"
    "rehash_all (m_buckets t) (replicate (2 * length (m_buckets t)) []) = Inr nb"
    "t' = t\<lparr>m_buckets := nb\<rparr>"
proof -
  have "nat (int (length (m_buckets t)) * 2) = 2 * length (m_buckets t)"
    by simp
  with assms that show thesis
    by (auto simp: grow_def capacity_def kGrowthCoefficient_def Let_def
        split: if_splits sum.splits)
qed

lemma grow_length:
  "grow t = Inr t' \<Longrightarrow> length (m_buckets t') = 2 * length (m_buckets t)"
  by (erule grow_cases) (auto dest: rehash_all_length)

lemma grow_bound:
  "grow t = Inr t' \<Longrightarrow> int (length (m_buckets t')) \<le> INT_MAX"
  by (erule grow_cases) (auto dest: rehash_all_length)

lemma grow_fields:
  "grow t = Inr t' \<Longrightarrow> m_num_keys t' = m_num_keys t \<and> m_load_factor t' = m_load_factor t"
  by (erule grow_cases) auto

lemma grow_mset:
  "grow t = Inr t' \<Longrightarrow> mset (concat (m_buckets t')) = mset (concat (m_buckets t))"
  by (erule grow_cases) (auto dest: rehash_all_mset)

lemma grow_placed:
  "grow t = Inr t' \<Longrightarrow> placed (m_buckets t')"
  by (erule grow_cases) (auto dest: rehash_all_placed simp: placed_replicate)

lemma grow_distinct:
  assumes "grow t = Inr t'" "placed (m_buckets t)" "\<forall>b \<in> set (m_buckets t). distinct (map fst b)"
  shows "distinct (map fst (concat (m_buckets t')))"
proof -
  have "mset (map fst (concat (m_buckets t'))) = mset (map fst (concat (m_buckets t)))"
    using grow_mset [OF assms(1)] by simp
  moreover have "distinct (map fst (concat (m_buckets t)))"
    using assms(2,3) by (rule placed_keys_distinct)
  ultimately show ?thesis
    by (metis mset_eq_imp_distinct_iff)
qed

lemma grow_lookup:
  assumes "grow t = Inr t'" "placed (m_buckets t)" "\<forall>b \<in> set (m_buckets t). distinct (map fst b)"
  shows "lookup (m_buckets t') k = lookup (m_buckets t) k"
proof -
  have d: "distinct (map fst (concat (m_buckets t)))"
    using assms(2,3) by (rule placed_keys_distinct)
  have d': "distinct (map fst (concat (m_buckets t')))"
    using assms by (rule grow_distinct)
  have "set (concat (m_buckets t')) = set (concat (m_buckets t))"
    using grow_mset [OF assms(1)] by (rule mset_eq_setD)
  with d d' have "map_of (concat (m_buckets t')) = map_of (concat (m_buckets t))"
    by (simp add: map_of_inject_set)
  moreover have "lookup (m_buckets t') k = map_of (concat (m_buckets t')) k"
    using grow_placed [OF assms(1)] d' by (intro lookup_map_of) (auto dest: distinct_keys_bucket)
  moreover have "lookup (m_buckets t) k = map_of (concat (m_buckets t)) k"
    using assms(2,3) by (rule lookup_map_of)
  ultimately show ?thesis by simp
qed

lemma grow_succeeds:
  assumes "2 * int (length (m_buckets t)) \<le> INT_MAX"
    and "\<forall>p \<in> set (concat (m_buckets t)).
           has_bucket (replicate (2 * length (m_buckets t)) []) (fst p)"
  shows "\<exists>t'. grow t = Inr t'"
proof -
  have n: "nat (int (length (m_buckets t)) * 2) = 2 * length (m_buckets t)"
    by simp
  from rehash_all_succeeds [OF assms(2)] obtain nb where
    "rehash_all (m_buckets t) (replicate (2 * length (m_buckets t)) []) = Inr nb"
    by blast
  with assms(1) n show ?thesis
    by (simp add: grow_def capacity_def kGrowthCoefficient_def Let_def)
qed

lemma keys_dom_lookup:
  assumes "placed bs" "\<forall>b \<in> set bs. distinct (map fst b)"
  shows "fst ` set (concat bs) = dom (lookup bs)"
proof -
  have "lookup bs = map_of (concat bs)"
    using lookup_map_of [OF assms] by (rule ext)
  then show ?thesis
    by (simp add: dom_map_of_conv_image_fst)
qed

lemma double_div_ge_one:
  assumes "0 < c" "int c \<le> n"
  shows "1 \<le> double_div n c"
proof -
  have "(1::rat) \<le> of_int n / of_nat c"
    using assms by (simp add: le_divide_eq)
  with double_div_ge [OF is_double_1, of n c] show ?thesis
    by simp
qed

lemma New_invar:
  assumes "New cap lf = Inr t" "cap \<le> INT_MAX" "is_double lf"
  shows "invar t"
  using assms by (auto simp: New_def invar_def placed_replicate split: if_splits)

lemma Put_cases:
  assumes "Put t k v = Inr t'"
  obtains (same) "put_entry t k v = Inr t'"
      "\<not> m_load_factor t' \<le> double_div (m_num_keys t') (length (m_buckets t'))"
  | (grown) t1 where "put_entry t k v = Inr t1"
      "m_load_factor t1 \<le> double_div (m_num_keys t1) (length (m_buckets t1))"
      "grow t1 = Inr t'"
  using assms by (auto simp: Put_def split: sum.splits if_splits)

lemma Put_has_bucket: "Put t k v = Inr t' \<Longrightarrow> has_bucket (m_buckets t) k"
  by (erule Put_cases) (auto dest: put_entry_has_bucket)

lemma Put_load_factor:
  assumes "Put t k v = Inr t'"
  shows "m_load_factor t' = m_load_factor t"
  using assms
proof (cases rule: Put_cases)
  case same
  then show ?thesis by (simp add: put_entry_load_factor)
next
  case (grown t1)
  then show ?thesis
    using put_entry_load_factor [OF grown(1)] grow_fields [OF grown(3)] by simp
qed

lemma Put_num_keys:
  assumes "Put t k v = Inr t'"
  shows "m_num_keys t' = m_num_keys t + (if lookup (m_buckets t) k = None then 1 else 0)"
  using assms
proof (cases rule: Put_cases)
  case same
  then show ?thesis by (simp add: put_entry_num_keys)
next
  case (grown t1)
  then show ?thesis
    using put_entry_num_keys [OF grown(1)] grow_fields [OF grown(3)] by simp
qed

lemma Put_length:
  "Put t k v = Inr t' \<Longrightarrow>
     length (m_buckets t') =
       (if m_load_factor t \<le> double_div (m_num_keys t') (length (m_buckets t))
        then 2 * length (m_buckets t) else length (m_buckets t))"
proof (erule Put_cases)
  assume a: "put_entry t k v = Inr t'"
    "\<not> m_load_factor t' \<le> double_div (m_num_keys t') (length (m_buckets t'))"
  then show ?thesis
    using put_entry_length [OF a(1)] put_entry_load_factor [OF a(1)] by simp
next
  fix t1
  assume a: "put_entry t k v = Inr t1"
    "m_load_factor t1 \<le> double_div (m_num_keys t1) (length (m_buckets t1))"
    "grow t1 = Inr t'"
  then show ?thesis
    using put_entry_length [OF a(1)] put_entry_load_factor [OF a(1)] grow_fields [OF a(3)]
      grow_length [OF a(3)] by simp
qed

lemma Put_lookup:
  assumes "Put t k v = Inr t'" "placed (m_buckets t)" "\<forall>b \<in> set (m_buckets t). distinct (map fst b)"
  shows "lookup (m_buckets t') k' = (if k' = k then Some v else lookup (m_buckets t) k')"
  using assms(1)
proof (cases rule: Put_cases)
  case same
  then show ?thesis by (simp add: put_entry_lookup)
next
  case (grown t1)
  have "lookup (m_buckets t') k' = lookup (m_buckets t1) k'"
    using grown(3) put_entry_placed [OF grown(1) assms(2)] put_entry_distinct [OF grown(1) assms(3)]
    by (rule grow_lookup)
  with grown(1) show ?thesis by (simp add: put_entry_lookup)
qed

lemma Put_invar:
  assumes "Put t k v = Inr t'" "invar t"
  shows "invar t'"
  using assms(1)
proof (cases rule: Put_cases)
  case same
  have "m_num_keys t' < int (length (m_buckets t'))"
  proof (rule ccontr)
    assume "\<not> m_num_keys t' < int (length (m_buckets t'))"
    moreover have "0 < length (m_buckets t')"
      using put_entry_length [OF same(1)] assms(2) by (simp add: invar_def)
    ultimately have "1 \<le> double_div (m_num_keys t') (length (m_buckets t'))"
      by (intro double_div_ge_one) simp_all
    moreover have "m_load_factor t' \<le> 1"
      using put_entry_load_factor [OF same(1)] assms(2) by (simp add: invar_def)
    ultimately show False
      using same(2) by simp
  qed
  then show ?thesis
    using assms(2) put_entry_length [OF same(1)] put_entry_load_factor [OF same(1)]
      put_entry_placed [OF same(1)] put_entry_distinct [OF same(1)] put_entry_count [OF same(1)]
    by (simp add: invar_def)
next
  case (grown t1)
  have t1: "length (m_buckets t1) = length (m_buckets t)" "m_load_factor t1 = m_load_factor t"
    "placed (m_buckets t1)" "\<forall>b \<in> set (m_buckets t1). distinct (map fst b)"
    "m_num_keys t1 = int (length (concat (m_buckets t1)))"
    using assms(2) put_entry_length [OF grown(1)] put_entry_load_factor [OF grown(1)]
      put_entry_placed [OF grown(1)] put_entry_distinct [OF grown(1)] put_entry_count [OF grown(1)]
    by (simp_all add: invar_def)
  have n1: "m_num_keys t1 \<le> m_num_keys t + 1"
    using put_entry_num_keys [OF grown(1)] by simp
  have "length (concat (m_buckets t')) = length (concat (m_buckets t1))"
    using grow_mset [OF grown(3)] by (rule mset_eq_length)
  moreover have "\<forall>b \<in> set (m_buckets t'). distinct (map fst b)"
    using grow_distinct [OF grown(3) t1(3,4)] by (auto dest: distinct_keys_bucket)
  ultimately show ?thesis
    using assms(2) t1 n1 grow_length [OF grown(3)] grow_bound [OF grown(3)]
      grow_fields [OF grown(3)] grow_placed [OF grown(3)]
    by (simp add: invar_def)
qed

lemma put_entry_keys:
  assumes "put_entry t k v = Inr t1" "placed (m_buckets t)"
    "\<forall>b \<in> set (m_buckets t). distinct (map fst b)"
  shows "fst ` set (concat (m_buckets t1)) = insert k (fst ` set (concat (m_buckets t)))"
proof -
  have "dom (lookup (m_buckets t1)) = insert k (dom (lookup (m_buckets t)))"
    using put_entry_lookup [OF assms(1)] by (auto simp: dom_def)
  then show ?thesis
    using keys_dom_lookup [OF assms(2,3)]
      keys_dom_lookup [OF put_entry_placed [OF assms(1,2)] put_entry_distinct [OF assms(1,3)]]
    by simp
qed

lemma Put_keys:
  assumes "Put t k v = Inr t'" "invar t"
  shows "fst ` set (concat (m_buckets t')) = insert k (fst ` set (concat (m_buckets t)))"
proof -
  have i: "placed (m_buckets t)" "\<forall>b \<in> set (m_buckets t). distinct (map fst b)"
    using assms(2) by (simp_all add: invar_def)
  have i': "placed (m_buckets t')" "\<forall>b \<in> set (m_buckets t'). distinct (map fst b)"
    using Put_invar [OF assms] by (simp_all add: invar_def)
  have "dom (lookup (m_buckets t')) = insert k (dom (lookup (m_buckets t)))"
    using Put_lookup [OF assms(1) i] by (auto simp: dom_def)
  then show ?thesis
    using keys_dom_lookup [OF i] keys_dom_lookup [OF i'] by simp
qed

lemma Put_succeeds:
  assumes "invar t" "0 \<le> k" "\<forall>p \<in> set (concat (m_buckets t)). 0 \<le> fst p"
    and "2 * capacity t \<le> INT_MAX"
  shows "\<exists>t'. Put t k v = Inr t'"
proof -
  have i: "placed (m_buckets t)" "\<forall>b \<in> set (m_buckets t). distinct (map fst b)"
    "0 < length (m_buckets t)" "m_num_keys t < INT_MAX"
    using assms(1) by (simp_all add: invar_def)
  from put_entry_succeeds [OF has_bucket_nonneg [OF assms(2) i(3)] i(4)]
  obtain t1 where t1: "put_entry t k v = Inr t1"
    by blast
  show ?thesis
  proof (cases "m_load_factor t1 \<le> double_div (m_num_keys t1) (length (m_buckets t1))")
    case False
    with t1 show ?thesis by (simp add: Put_def)
  next
    case True
    have len: "length (m_buckets t1) = length (m_buckets t)"
      using t1 by (rule put_entry_length)
    have "\<forall>p \<in> set (concat (m_buckets t1)). 0 \<le> fst p"
      using put_entry_keys [OF t1 i(1,2)] assms(2,3) by (metis image_eqI insert_iff imageE)
    then have "\<forall>p \<in> set (concat (m_buckets t1)).
        has_bucket (replicate (2 * length (m_buckets t1)) []) (fst p)"
      using i(3) len by (auto intro!: has_bucket_nonneg)
    moreover have "2 * int (length (m_buckets t1)) \<le> INT_MAX"
      using assms(4) len by (simp add: capacity_def)
    ultimately obtain t' where "grow t1 = Inr t'"
      using grow_succeeds by blast
    with t1 True show ?thesis by (simp add: Put_def)
  qed
qed

lemma Put_succeeds_no_growth:
  assumes "invar t" "has_bucket (m_buckets t) k"
    and "\<not> m_load_factor t \<le> double_div (m_num_keys t + 1) (length (m_buckets t))"
    and "lookup (m_buckets t) k = None"
  shows "\<exists>t'. Put t k v = Inr t' \<and> length (m_buckets t') = length (m_buckets t)"
proof -
  have "m_num_keys t < INT_MAX"
    using assms(1) by (simp add: invar_def)
  from put_entry_succeeds [OF assms(2) this]
  obtain t1 where t1: "put_entry t k v = Inr t1"
    by blast
  with assms(3,4) show ?thesis
    using put_entry_length [OF t1] put_entry_load_factor [OF t1] put_entry_num_keys [OF t1]
    by (simp add: Put_def)
qed

lemma Remove_unfold:
  "Remove t k =
     (case utils_hash k (int (length (m_buckets t))) of
        Inl e \<Rightarrow> Inl e
      | Inr h \<Rightarrow>
          (if 0 \<le> h \<and> h < int (length (m_buckets t))
           then (case find_value (m_buckets t ! nat h) k of
                   None \<Rightarrow> Inr (None, t)
                 | Some v \<Rightarrow>
                     (if m_num_keys t = INT_MIN then Inl IntegerOverflow
                      else Inr (Some v,
                             t\<lparr>m_buckets :=
                                 (m_buckets t)[nat h := erase_first (m_buckets t ! nat h) k],
                               m_num_keys := m_num_keys t - 1\<rparr>)))
           else Inl IndexOutOfRange))"
  by (simp add: Remove_def ContainsKey_def Search_def hash_def capacity_def bucket_at_def
      split: sum.splits option.splits)

lemma Remove_cases:
  assumes "Remove t k = Inr (r, t')"
  obtains (absent) "has_bucket (m_buckets t) k" "lookup (m_buckets t) k = None" "r = None" "t' = t"
  | (present) h v where "utils_hash k (int (length (m_buckets t))) = Inr h"
      "0 \<le> h" "h < int (length (m_buckets t))"
      "find_value (m_buckets t ! nat h) k = Some v" "m_num_keys t \<noteq> INT_MIN"
      "r = Some v"
      "t' = t\<lparr>m_buckets := (m_buckets t)[nat h := erase_first (m_buckets t ! nat h) k],
              m_num_keys := m_num_keys t - 1\<rparr>"
proof -
  from assms obtain h where h: "utils_hash k (int (length (m_buckets t))) = Inr h"
    "0 \<le> h" "h < int (length (m_buckets t))"
    by (auto simp: Remove_unfold split: sum.splits if_splits)
  show thesis
  proof (cases "find_value (m_buckets t ! nat h) k")
    case None
    with assms h have "r = None" "t' = t"
      by (simp_all add: Remove_unfold)
    moreover have "has_bucket (m_buckets t) k" "lookup (m_buckets t) k = None"
      using h None by (simp_all add: has_bucket_def lookup_def)
    ultimately show thesis by (intro absent)
  next
    case (Some v)
    with assms h have "m_num_keys t \<noteq> INT_MIN" "r = Some v"
      "t' = t\<lparr>m_buckets := (m_buckets t)[nat h := erase_first (m_buckets t ! nat h) k],
              m_num_keys := m_num_keys t - 1\<rparr>"
      by (auto simp: Remove_unfold split: if_splits)
    with h Some show thesis by (intro present)
  qed
qed

lemma Remove_succeeds:
  assumes "has_bucket (m_buckets t) k" "INT_MIN < m_num_keys t"
  shows "\<exists>t'. Remove t k = Inr (lookup (m_buckets t) k, t')"
proof -
  from assms(1) obtain h where h: "utils_hash k (int (length (m_buckets t))) = Inr h"
    "0 \<le> h" "h < int (length (m_buckets t))"
    by (auto simp: has_bucket_def split: sum.splits)
  with assms(2) show ?thesis
    by (cases "find_value (m_buckets t ! nat h) k") (simp_all add: Remove_unfold lookup_def)
qed

lemma Remove_result:
  "Remove t k = Inr (r, t') \<Longrightarrow> r = lookup (m_buckets t) k"
  by (erule Remove_cases) (auto simp: lookup_def)

lemma Remove_length:
  "Remove t k = Inr (r, t') \<Longrightarrow> length (m_buckets t') = length (m_buckets t)"
  by (erule Remove_cases) auto

lemma Remove_load_factor:
  "Remove t k = Inr (r, t') \<Longrightarrow> m_load_factor t' = m_load_factor t"
  by (erule Remove_cases) auto

lemma Remove_num_keys:
  "Remove t k = Inr (r, t') \<Longrightarrow>
     m_num_keys t' = m_num_keys t - (if r = None then 0 else 1)"
  by (erule Remove_cases) auto

lemma Remove_lookup_other:
  assumes "Remove t k = Inr (r, t')" "k' \<noteq> k"
  shows "lookup (m_buckets t') k' = lookup (m_buckets t) k'"
  using assms(1)
proof (cases rule: Remove_cases)
  case absent
  then show ?thesis by simp
next
  case (present h v)
  with assms(2) show ?thesis
    by (auto simp: lookup_def nth_list_update find_value_erase_first_other split: sum.splits)
qed

lemma Remove_lookup_same:
  assumes "Remove t k = Inr (r, t')" "\<forall>b \<in> set (m_buckets t). distinct (map fst b)"
  shows "lookup (m_buckets t') k = None"
  using assms(1)
proof (cases rule: Remove_cases)
  case absent
  then show ?thesis by simp
next
  case (present h v)
  have "nat h < length (m_buckets t)"
    using present(2,3) by simp
  then have "distinct (map fst (m_buckets t ! nat h))"
    using assms(2) by simp
  with present show ?thesis
    by (simp add: lookup_def find_value_erase_first_same)
qed

lemma Remove_invar:
  assumes "Remove t k = Inr (r, t')" "invar t"
  shows "invar t'"
  using assms(1)
proof (cases rule: Remove_cases)
  case absent
  with assms(2) show ?thesis by simp
next
  case (present h v)
  let ?bs = "m_buckets t"
  have h: "nat h < length ?bs"
    using present(2,3) by simp
  have i: "placed ?bs" "\<forall>b \<in> set ?bs. distinct (map fst b)"
    using assms(2) by (simp_all add: invar_def)
  have "\<forall>p \<in> set (erase_first (?bs ! nat h) k).
          utils_hash (fst p) (int (length ?bs)) = Inr (int (nat h))"
    using i(1) h set_erase_first [of "?bs ! nat h" k] unfolding placed_def by blast
  then have pl: "placed (?bs[nat h := erase_first (?bs ! nat h) k])"
    using i(1) h by (intro placed_update)
  have "distinct (map fst (erase_first (?bs ! nat h) k))"
    using i(2) h by (simp add: distinct_erase_first)
  then have di: "\<forall>b \<in> set (?bs[nat h := erase_first (?bs ! nat h) k]). distinct (map fst b)"
    using distinct_update [OF i(2)] by blast
  have "length (concat (?bs[nat h := erase_first (?bs ! nat h) k])) + length (?bs ! nat h)
      = length (concat ?bs) + length (erase_first (?bs ! nat h) k)"
    using h by (rule length_concat_update)
  with length_erase_first [OF present(4)]
  have cnt: "int (length (concat (?bs[nat h := erase_first (?bs ! nat h) k])))
      = int (length (concat ?bs)) - 1"
    by linarith
  show ?thesis
    using assms(2) pl di cnt present(7) by (simp add: invar_def)
qed

lemma reachable_invar: "reachable t \<Longrightarrow> invar t"
proof (induction rule: reachable.induct)
  case (constructed cap lf t)
  then show ?case by (simp add: New_invar)
next
  case (after_Put t key val t')
  then show ?case by (simp add: Put_invar)
next
  case (after_Remove t key r t')
  then show ?case by (simp add: Remove_invar)
qed

lemma Search_length_lookup:
  assumes "length (m_buckets t') = length (m_buckets t)"
    and "lookup (m_buckets t') k = lookup (m_buckets t) k"
  shows "Search t' k = Search t k"
proof (cases "has_bucket (m_buckets t) k")
  case True
  then have "has_bucket (m_buckets t') k"
    using has_bucket_length [OF assms(1)] by simp
  with True assms(2) show ?thesis
    by (simp add: Search_has_bucket)
next
  case False
  then have "\<not> has_bucket (m_buckets t') k"
    using has_bucket_length [OF assms(1)] by simp
  with False show ?thesis
    by (auto simp: has_bucket_def Search_def hash_def capacity_def bucket_at_def assms(1)
        split: sum.splits)
qed

lemma stored_key_lookup:
  assumes "invar t" "k \<in> keys_ht t"
  shows "has_bucket (m_buckets t) k \<and> (\<exists>v. lookup (m_buckets t) k = Some v)"
proof -
  have i: "placed (m_buckets t)" "\<forall>b \<in> set (m_buckets t). distinct (map fst b)"
    using assms(1) by (simp_all add: invar_def)
  from assms(2) obtain p where p: "p \<in> set (concat (m_buckets t))" "fst p = k"
    by (auto simp: keys_ht_def)
  have "k \<in> dom (lookup (m_buckets t))"
    using keys_dom_lookup [OF i] assms(2) by (simp add: keys_ht_def)
  with has_bucket_stored [OF i(1) p(1)] p(2) show ?thesis
    by auto
qed

lemma absent_key_lookup:
  assumes "invar t" "k \<notin> keys_ht t"
  shows "lookup (m_buckets t) k = None"
proof -
  have i: "placed (m_buckets t)" "\<forall>b \<in> set (m_buckets t). distinct (map fst b)"
    using assms(1) by (simp_all add: invar_def)
  have "k \<notin> dom (lookup (m_buckets t))"
    using keys_dom_lookup [OF i] assms(2) by (simp add: keys_ht_def)
  then show ?thesis
    by auto
qed

lemma ContainsKey_has_bucket:
  "has_bucket (m_buckets t) k \<Longrightarrow> ContainsKey t k = Inr (lookup (m_buckets t) k \<noteq> None)"
  by (simp add: ContainsKey_def Search_has_bucket)

lemma double_div_less_exact:
  assumes "is_double lf" "0 < lf" "\<not> lf \<le> double_div n c"
  shows "of_int n / of_nat c < lf"
proof (rule ccontr)
  assume "\<not> of_int n / of_nat c < lf"
  then have "lf \<le> of_int n / of_nat c"
    by simp
  from double_div_ge [OF assms(1,2) this] assms(3) show False
    by simp
qed

lemma put_entry_update_keys:
  assumes "put_entry t k v = Inr t1" "lookup (m_buckets t) k \<noteq> None"
  shows "map (map fst) (m_buckets t1) = map (map fst) (m_buckets t)"
  using assms(1)
proof (cases rule: put_entry_cases)
  case (update h)
  have "nat h < length (m_buckets t)"
    using update(2,3) by simp
  then have "(map (map fst) (m_buckets t))[nat h := map fst (m_buckets t ! nat h)]
      = map (map fst) (m_buckets t)"
    by (metis length_map list_update_id nth_map)
  with update(5) show ?thesis
    by (simp add: map_update)
next
  case (insert h)
  with assms(2) show ?thesis
    by (simp add: lookup_def)
qed

lemma double_div_mono:
  assumes "0 \<le> n" "n \<le> m"
  shows "double_div n c \<le> double_div m c"
proof -
  have "(0::rat) \<le> of_int n / of_nat c" "(of_int n :: rat) / of_nat c \<le> of_int m / of_nat c"
    using assms by (simp_all add: divide_right_mono)
  then show ?thesis
    unfolding double_div_def by (rule round_double_mono)
qed


lemma keys_ht_Put:
  assumes "Put t k v = Inr t'" "invar t"
  shows "keys_ht t' = insert k (keys_ht t)"
  using Put_keys [OF assms] by (simp add: keys_ht_def)

text \<open>A run of insertions of new keys during which the resize test stays false.\<close>

lemma put_all_no_growth:
  assumes "invar t" "distinct ks" "\<forall>k \<in> set ks. has_bucket (m_buckets t) k"
    and "set ks \<inter> keys_ht t = {}"
    and "double_div (m_num_keys t + int (length ks)) (length (m_buckets t)) < m_load_factor t"
  shows "\<exists>t'. put_all t (map (\<lambda>k. (k, f k)) ks) = Inr t' \<and> invar t' \<and>
    length (m_buckets t') = length (m_buckets t) \<and>
    m_num_keys t' = m_num_keys t + int (length ks) \<and>
    keys_ht t' = set ks \<union> keys_ht t \<and>
    (\<forall>x. lookup (m_buckets t') x = (if x \<in> set ks then Some (f x) else lookup (m_buckets t) x))"
  using assms
proof (induction ks arbitrary: t)
  case Nil
  then show ?case by simp
next
  case (Cons k ks)
  have n0: "0 \<le> m_num_keys t"
    using Cons.prems(1) by (simp add: invar_def)
  have absent: "lookup (m_buckets t) k = None"
    using Cons.prems(1,4) by (intro absent_key_lookup) auto
  have "double_div (m_num_keys t + 1) (length (m_buckets t))
      \<le> double_div (m_num_keys t + int (length (k # ks))) (length (m_buckets t))"
    using n0 by (intro double_div_mono) simp_all
  with Cons.prems(5)
  have "\<not> m_load_factor t \<le> double_div (m_num_keys t + 1) (length (m_buckets t))"
    by simp
  from Put_succeeds_no_growth [OF Cons.prems(1) _ this absent, of "f k"] Cons.prems(3)
  obtain t1 where t1: "Put t k (f k) = Inr t1" "length (m_buckets t1) = length (m_buckets t)"
    by auto
  have i1: "invar t1"
    using t1(1) Cons.prems(1) by (rule Put_invar)
  have n1: "m_num_keys t1 = m_num_keys t + 1"
    using Put_num_keys [OF t1(1)] absent by simp
  have k1: "keys_ht t1 = insert k (keys_ht t)"
    using t1(1) Cons.prems(1) by (rule keys_ht_Put)
  have pl: "placed (m_buckets t)" "\<forall>b \<in> set (m_buckets t). distinct (map fst b)"
    using Cons.prems(1) by (simp_all add: invar_def)
  have l1: "lookup (m_buckets t1) x = (if x = k then Some (f k) else lookup (m_buckets t) x)" for x
    using Put_lookup [OF t1(1) pl] by simp
  have "\<exists>t'. put_all t1 (map (\<lambda>k. (k, f k)) ks) = Inr t' \<and> invar t' \<and>
    length (m_buckets t') = length (m_buckets t1) \<and>
    m_num_keys t' = m_num_keys t1 + int (length ks) \<and>
    keys_ht t' = set ks \<union> keys_ht t1 \<and>
    (\<forall>x. lookup (m_buckets t') x = (if x \<in> set ks then Some (f x) else lookup (m_buckets t1) x))"
  proof (rule Cons.IH [OF i1])
    show "distinct ks"
      using Cons.prems(2) by simp
    show "\<forall>k \<in> set ks. has_bucket (m_buckets t1) k"
      using Cons.prems(3) has_bucket_length [OF t1(2)] by simp
    show "set ks \<inter> keys_ht t1 = {}"
      using Cons.prems(2,4) k1 by auto
    show "double_div (m_num_keys t1 + int (length ks)) (length (m_buckets t1)) < m_load_factor t1"
      using Cons.prems(5) n1 t1(2) Put_load_factor [OF t1(1)] by (simp add: add.assoc)
  qed
  then obtain t' where t': "put_all t1 (map (\<lambda>k. (k, f k)) ks) = Inr t'" "invar t'"
    "length (m_buckets t') = length (m_buckets t1)"
    "m_num_keys t' = m_num_keys t1 + int (length ks)"
    "keys_ht t' = set ks \<union> keys_ht t1"
    "\<forall>x. lookup (m_buckets t') x = (if x \<in> set ks then Some (f x) else lookup (m_buckets t1) x)"
    by blast
  have "put_all t (map (\<lambda>k. (k, f k)) (k # ks)) = Inr t'"
    using t1(1) t'(1) by simp
  moreover have "\<forall>x. lookup (m_buckets t') x =
      (if x \<in> set (k # ks) then Some (f x) else lookup (m_buckets t) x)"
    using t'(6) l1 by auto
  ultimately show ?case
    using t'(2,3,4,5) t1(2) n1 k1 by auto
qed

text \<open>
  A run of insertions of new keys that are not negative, on a table of capacity \<open>c0\<close> or
  \<open>2 * c0\<close>, with fewer keys in the end than \<open>c0\<close> times the load factor: the rounding of
  the quotient can trigger one resize, never a second one.
\<close>

lemma put_all_one_growth:
  assumes "invar t" "distinct ks" "\<forall>k \<in> set ks. 0 \<le> k" "\<forall>k \<in> keys_ht t. 0 \<le> k"
    and "set ks \<inter> keys_ht t = {}"
    and "length (m_buckets t) = c0 \<or> length (m_buckets t) = 2 * c0"
    and "2 * int c0 \<le> INT_MAX"
    and "of_int (m_num_keys t + int (length ks)) < of_nat c0 * m_load_factor t"
  shows "\<exists>t'. put_all t (map (\<lambda>k. (k, f k)) ks) = Inr t' \<and> invar t' \<and>
    (length (m_buckets t') = c0 \<or> length (m_buckets t') = 2 * c0) \<and>
    m_num_keys t' = m_num_keys t + int (length ks) \<and>
    (\<forall>x. lookup (m_buckets t') x = (if x \<in> set ks then Some (f x) else lookup (m_buckets t) x))"
  using assms
proof (induction ks arbitrary: t)
  case Nil
  then show ?case by simp
next
  case (Cons k ks)
  have i: "0 \<le> m_num_keys t" "0 < length (m_buckets t)" "0 < m_load_factor t"
    "is_double (m_load_factor t)"
    using Cons.prems(1) by (simp_all add: invar_def)
  have c0: "0 < c0"
  proof (rule ccontr)
    assume "\<not> 0 < c0"
    then have "c0 = 0" by simp
    with Cons.prems(6) i(2) show False by simp
  qed
  have absent: "lookup (m_buckets t) k = None"
    using Cons.prems(1,5) by (intro absent_key_lookup) auto
  have k0: "0 \<le> k"
    using Cons.prems(3) by simp
  have "\<exists>t1. Put t k (f k) = Inr t1 \<and>
      (length (m_buckets t1) = c0 \<or> length (m_buckets t1) = 2 * c0)"
  proof (cases "length (m_buckets t) = c0")
    case True
    have "\<forall>p \<in> set (concat (m_buckets t)). 0 \<le> fst p"
      using Cons.prems(4) by (simp add: keys_ht_def)
    moreover have "2 * capacity t \<le> INT_MAX"
      using True Cons.prems(7) by (simp add: capacity_def)
    ultimately obtain t1 where t1: "Put t k (f k) = Inr t1"
      using Put_succeeds [OF Cons.prems(1) k0] by blast
    with Put_length [OF t1] True show ?thesis
      by (auto split: if_splits)
  next
    case False
    with Cons.prems(6) have len: "length (m_buckets t) = 2 * c0"
      by simp
    have "(of_int (m_num_keys t + 1) :: rat) \<le> of_int (m_num_keys t + int (length (k # ks)))"
      by (simp only: of_int_le_iff) simp
    with Cons.prems(8) have "(of_int (m_num_keys t + 1) :: rat) < of_nat c0 * m_load_factor t"
      by simp
    then have "(of_int (m_num_keys t + 1) :: rat) / of_nat (2 * c0) \<le> m_load_factor t / 2"
      using c0 by (simp add: field_simps)
    from double_div_below_half [OF i(4,3) _ this] i(1)
    have "\<not> m_load_factor t \<le> double_div (m_num_keys t + 1) (length (m_buckets t))"
      by (simp add: len)
    from Put_succeeds_no_growth [OF Cons.prems(1) has_bucket_nonneg [OF k0 i(2)] this absent]
    show ?thesis
      using len by auto
  qed
  then obtain t1 where t1: "Put t k (f k) = Inr t1"
    "length (m_buckets t1) = c0 \<or> length (m_buckets t1) = 2 * c0"
    by blast
  have i1: "invar t1"
    using t1(1) Cons.prems(1) by (rule Put_invar)
  have n1: "m_num_keys t1 = m_num_keys t + 1"
    using Put_num_keys [OF t1(1)] absent by simp
  have k1: "keys_ht t1 = insert k (keys_ht t)"
    using t1(1) Cons.prems(1) by (rule keys_ht_Put)
  have pl: "placed (m_buckets t)" "\<forall>b \<in> set (m_buckets t). distinct (map fst b)"
    using Cons.prems(1) by (simp_all add: invar_def)
  have l1: "lookup (m_buckets t1) x = (if x = k then Some (f k) else lookup (m_buckets t) x)" for x
    using Put_lookup [OF t1(1) pl] by simp
  have "\<exists>t'. put_all t1 (map (\<lambda>k. (k, f k)) ks) = Inr t' \<and> invar t' \<and>
    (length (m_buckets t') = c0 \<or> length (m_buckets t') = 2 * c0) \<and>
    m_num_keys t' = m_num_keys t1 + int (length ks) \<and>
    (\<forall>x. lookup (m_buckets t') x = (if x \<in> set ks then Some (f x) else lookup (m_buckets t1) x))"
  proof (rule Cons.IH [OF i1])
    show "distinct ks"
      using Cons.prems(2) by simp
    show "\<forall>k \<in> set ks. 0 \<le> k"
      using Cons.prems(3) by simp
    show "\<forall>k \<in> keys_ht t1. 0 \<le> k"
      using Cons.prems(4) k0 k1 by simp
    show "set ks \<inter> keys_ht t1 = {}"
      using Cons.prems(2,5) k1 by auto
    show "length (m_buckets t1) = c0 \<or> length (m_buckets t1) = 2 * c0"
      by (rule t1(2))
    show "2 * int c0 \<le> INT_MAX"
      by (rule Cons.prems(7))
    show "of_int (m_num_keys t1 + int (length ks)) < of_nat c0 * m_load_factor t1"
      using Cons.prems(8) n1 Put_load_factor [OF t1(1)] by (simp add: add.assoc)
  qed
  then obtain t' where t': "put_all t1 (map (\<lambda>k. (k, f k)) ks) = Inr t'" "invar t'"
    "length (m_buckets t') = c0 \<or> length (m_buckets t') = 2 * c0"
    "m_num_keys t' = m_num_keys t1 + int (length ks)"
    "\<forall>x. lookup (m_buckets t') x = (if x \<in> set ks then Some (f x) else lookup (m_buckets t1) x)"
    by blast
  have "put_all t (map (\<lambda>k. (k, f k)) (k # ks)) = Inr t'"
    using t1(1) t'(1) by simp
  moreover have "\<forall>x. lookup (m_buckets t') x =
      (if x \<in> set (k # ks) then Some (f x) else lookup (m_buckets t) x)"
    using t'(5) l1 by auto
  ultimately show ?case
    using t'(2,3,4) n1 by auto
qed

lemma New_fresh:
  assumes "New cap lf = Inr t"
  shows "0 < cap" "m_num_keys t = 0" "m_load_factor t = lf" "length (m_buckets t) = nat cap"
    "keys_ht t = {}"
  using assms by (auto simp: New_def keys_ht_def split: if_splits)

lemma Search_lookup_Some:
  "lookup (m_buckets t) k = Some v \<Longrightarrow> Search t k = Inr (Some v)"
  using lookup_Some_has_bucket [of "m_buckets t" k v] by (simp add: Search_has_bucket)



lemma smod_less_pos:
  fixes k n :: int
  assumes "0 < n"
  shows "k smod n < n"
proof (cases "0 \<le> k")
  case True
  with assms show ?thesis
    by (simp add: smod_int_compares(1))
next
  case False
  have a: "0 \<le> (- k) mod n"
    using assms by simp
  have "k smod n = - ((- k) mod n)"
    using False assms by (simp add: smod_int_alt_def sgn_if)
  with a assms show ?thesis
    by linarith
qed

lemma has_bucket_smod:
  assumes "0 < length bs"
  shows "has_bucket bs k \<longleftrightarrow> 0 \<le> k smod int (length bs)"
  using assms smod_less_pos [of "int (length bs)" k]
  by (simp add: has_bucket_def utils_hash_def)

lemma rehash_bucket_Inr_has_bucket:
  "rehash_bucket ps nb = Inr nb' \<Longrightarrow> \<forall>p \<in> set ps. has_bucket nb (fst p)"
proof (induction ps nb rule: rehash_bucket.induct)
  case (1 nb)
  then show ?case by simp
next
  case (2 p ps nb)
  from "2.prems" obtain h where h: "utils_hash (fst p) (int (length nb)) = Inr h"
    "0 \<le> h" "h < int (length nb)"
    and rec: "rehash_bucket ps (nb[nat h := nb ! nat h @ [p]]) = Inr nb'"
    by (auto split: sum.splits if_splits)
  from "2.IH" [OF h(1) _ rec] h(2,3)
  have "\<forall>q \<in> set ps. has_bucket (nb[nat h := nb ! nat h @ [p]]) (fst q)"
    by simp
  then have "\<forall>q \<in> set ps. has_bucket nb (fst q)"
    using has_bucket_length [of "nb[nat h := nb ! nat h @ [p]]" nb] by simp
  moreover have "has_bucket nb (fst p)"
    using h by (simp add: has_bucket_def)
  ultimately show ?case by simp
qed

lemma rehash_all_Inr_has_bucket:
  "rehash_all bs nb = Inr nb' \<Longrightarrow> \<forall>p \<in> set (concat bs). has_bucket nb (fst p)"
proof (induction bs nb rule: rehash_all.induct)
  case (1 nb)
  then show ?case by simp
next
  case (2 b bs nb)
  from "2.prems" obtain nb1 where nb1: "rehash_bucket b nb = Inr nb1"
    and rec: "rehash_all bs nb1 = Inr nb'"
    by (auto split: sum.splits)
  have "\<forall>p \<in> set (concat bs). has_bucket nb1 (fst p)"
    using "2.IH" [OF nb1 rec] .
  then have "\<forall>p \<in> set (concat bs). has_bucket nb (fst p)"
    using has_bucket_length [OF rehash_bucket_length [OF nb1]] by simp
  with rehash_bucket_Inr_has_bucket [OF nb1] show ?case
    by auto
qed

lemma grow_Inr_D:
  assumes "grow t = Inr t'"
  shows "2 * int (length (m_buckets t)) \<le> INT_MAX"
    and "\<forall>p \<in> set (concat (m_buckets t)).
           has_bucket (replicate (2 * length (m_buckets t)) []) (fst p)"
proof -
  from assms obtain nb where nb: "2 * int (length (m_buckets t)) \<le> INT_MAX"
    "rehash_all (m_buckets t) (replicate (2 * length (m_buckets t)) []) = Inr nb"
    by (rule grow_cases)
  show "2 * int (length (m_buckets t)) \<le> INT_MAX"
    by (rule nb(1))
  show "\<forall>p \<in> set (concat (m_buckets t)).
      has_bucket (replicate (2 * length (m_buckets t)) []) (fst p)"
    using nb(2) by (rule rehash_all_Inr_has_bucket)
qed

lemma keys_ht_put_entry:
  assumes "put_entry t k v = Inr t1" "invar t"
  shows "keys_ht t1 = insert k (keys_ht t)"
  using put_entry_keys [OF assms(1)] assms(2) by (simp add: keys_ht_def invar_def)

lemma keys_ht_concat:
  "(\<forall>p \<in> set (concat (m_buckets t)). P (fst p)) \<longleftrightarrow> (\<forall>k \<in> keys_ht t. P k)"
  unfolding keys_ht_def by auto

text \<open>Exactly when a call of \<open>Put\<close> returns.\<close>

lemma Put_returns_iff:
  assumes "invar t"
  shows "(\<exists>t'. Put t k v = Inr t') \<longleftrightarrow>
    has_bucket (m_buckets t) k \<and>
    (m_load_factor t \<le> double_div (m_num_keys t + (if k \<in> keys_ht t then 0 else 1))
         (length (m_buckets t)) \<longrightarrow>
       2 * int (length (m_buckets t)) \<le> INT_MAX \<and>
       (\<forall>k' \<in> insert k (keys_ht t). has_bucket (replicate (2 * length (m_buckets t)) []) k'))"
proof -
  have count: "m_num_keys t1 = m_num_keys t + (if k \<in> keys_ht t then 0 else 1)"
    if "put_entry t k v = Inr t1" for t1
  proof (cases "k \<in> keys_ht t")
    case True
    with stored_key_lookup [OF assms] put_entry_num_keys [OF that] show ?thesis
      by auto
  next
    case False
    with absent_key_lookup [OF assms] put_entry_num_keys [OF that] show ?thesis
      by simp
  qed
  show ?thesis
  proof
    assume "\<exists>t'. Put t k v = Inr t'"
    then obtain t' where p: "Put t k v = Inr t'"
      by blast
    then show "has_bucket (m_buckets t) k \<and>
      (m_load_factor t \<le> double_div (m_num_keys t + (if k \<in> keys_ht t then 0 else 1))
           (length (m_buckets t)) \<longrightarrow>
         2 * int (length (m_buckets t)) \<le> INT_MAX \<and>
         (\<forall>k' \<in> insert k (keys_ht t). has_bucket (replicate (2 * length (m_buckets t)) []) k'))"
    proof (cases rule: Put_cases)
      case same
      then show ?thesis
        using count [OF same(1)] put_entry_length [OF same(1)] put_entry_load_factor [OF same(1)]
          put_entry_has_bucket [OF same(1)]
        by simp
    next
      case (grown t1)
      have "\<forall>k' \<in> keys_ht t1. has_bucket (replicate (2 * length (m_buckets t1)) []) k'"
        using grow_Inr_D(2) [OF grown(3)] by (simp only: keys_ht_concat)
      with grown show ?thesis
        using grow_Inr_D(1) [OF grown(3)] put_entry_length [OF grown(1)]
          keys_ht_put_entry [OF grown(1) assms] put_entry_has_bucket [OF grown(1)]
        by simp
    qed
  next
    assume a: "has_bucket (m_buckets t) k \<and>
      (m_load_factor t \<le> double_div (m_num_keys t + (if k \<in> keys_ht t then 0 else 1))
           (length (m_buckets t)) \<longrightarrow>
         2 * int (length (m_buckets t)) \<le> INT_MAX \<and>
         (\<forall>k' \<in> insert k (keys_ht t). has_bucket (replicate (2 * length (m_buckets t)) []) k'))"
    have "m_num_keys t < INT_MAX"
      using assms by (simp add: invar_def)
    with a put_entry_succeeds obtain t1 where t1: "put_entry t k v = Inr t1"
      by blast
    note f = count [OF t1] put_entry_length [OF t1] put_entry_load_factor [OF t1]
      keys_ht_put_entry [OF t1 assms]
    show "\<exists>t'. Put t k v = Inr t'"
    proof (cases "m_load_factor t1 \<le> double_div (m_num_keys t1) (length (m_buckets t1))")
      case False
      with t1 show ?thesis
        by (simp add: Put_def)
    next
      case True
      with a f have "2 * int (length (m_buckets t1)) \<le> INT_MAX"
        and "\<forall>k' \<in> keys_ht t1. has_bucket (replicate (2 * length (m_buckets t1)) []) k'"
        by simp_all
      then have "\<exists>t'. grow t1 = Inr t'"
        by (intro grow_succeeds) (simp_all only: keys_ht_concat)
      with t1 True show ?thesis
        by (simp add: Put_def)
    qed
  qed
qed

lemma is_double_half: "is_double (1 / 2)"
  by code_simp

lemma double_div_le_half:
  assumes "0 \<le> n" "2 * n \<le> int c"
  shows "double_div n c \<le> 1 / 2"
proof -
  have "(0::rat) \<le> of_int n / of_nat c"
    using assms(1) by simp
  moreover have "(of_int n :: rat) / of_nat c \<le> 1 / 2"
  proof (cases "c = 0")
    case True
    then show ?thesis by simp
  next
    case False
    have "(of_int (2 * n) :: rat) \<le> of_int (int c)"
      using assms(2) by (simp only: of_int_le_iff)
    with False show ?thesis
      by (simp add: field_simps)
  qed
  ultimately have "round_double (of_int n / of_nat c) \<le> round_double (1 / 2)"
    by (rule round_double_mono)
  with is_double_half show ?thesis
    by (simp add: double_div_def is_double_def)
qed

text \<open>With a load factor above one half the resize test is false on every reachable table.\<close>

lemma reachable_test_false:
  assumes "reachable t" "1 / 2 < m_load_factor t"
  shows "double_div (m_num_keys t) (length (m_buckets t)) < m_load_factor t"
  using assms
proof (induction rule: reachable.induct)
  case (constructed cap lf t)
  then show ?case
    by (auto simp: New_def double_div_def round_double_def split: if_splits)
next
  case (after_Put t key val t')
  have i: "invar t"
    using after_Put.hyps(1) by (rule reachable_invar)
  from after_Put.hyps(2) show ?case
  proof (cases rule: Put_cases)
    case same
    then show ?thesis by simp
  next
    case (grown t1)
    have "m_num_keys t1 \<le> m_num_keys t + 1" "0 \<le> m_num_keys t1"
      using put_entry_num_keys [OF grown(1)] i by (simp_all add: invar_def)
    moreover have "m_num_keys t < int (length (m_buckets t))"
      using i by (simp add: invar_def)
    ultimately have "0 \<le> m_num_keys t1" "2 * m_num_keys t1 \<le> int (2 * length (m_buckets t))"
      by simp_all
    then have "double_div (m_num_keys t1) (2 * length (m_buckets t)) \<le> 1 / 2"
      by (rule double_div_le_half)
    with after_Put.prems show ?thesis
      using grow_fields [OF grown(3)] grow_length [OF grown(3)] put_entry_length [OF grown(1)]
      by simp
  qed
next
  case (after_Remove t key r t')
  have "invar t'"
    using after_Remove.hyps reachable_invar Remove_invar by blast
  then have "0 \<le> m_num_keys t'"
    by (simp add: invar_def)
  moreover have "m_num_keys t' \<le> m_num_keys t"
    using Remove_num_keys [OF after_Remove.hyps(2)] by simp
  ultimately have "double_div (m_num_keys t') (length (m_buckets t))
      \<le> double_div (m_num_keys t) (length (m_buckets t))"
    by (rule double_div_mono)
  with after_Remove show ?case
    using Remove_length [OF after_Remove.hyps(2)] Remove_load_factor [OF after_Remove.hyps(2)]
    by simp
qed

text \<open>
  A table constructed with \<open>capacity * loadFactor > 1/2\<close> keeps its count strictly below
  the capacity times the load factor through every \<open>Put\<close> and \<open>Remove\<close>.
\<close>

lemma reachable_from_ratio:
  assumes "New cap lf = Inr t0" "cap \<le> INT_MAX" "is_double lf" "1 / 2 < of_int cap * lf"
    and "reachable_from t0 t"
  shows "invar t \<and> m_load_factor t = lf \<and>
    of_int (m_num_keys t) < of_nat (length (m_buckets t)) * lf \<and>
    1 / 2 < of_nat (length (m_buckets t)) * lf"
  using assms(5)
proof (induction rule: reachable_from.induct)
  case at_start
  have "0 < lf"
    using assms(1) by (auto simp: New_def split: if_splits)
  with assms(1-4) New_fresh [OF assms(1)] show ?case
    by (simp add: New_invar)
next
  case (then_Put t key val t')
  then have i: "invar t" and lf: "m_load_factor t = lf"
    and below: "of_int (m_num_keys t) < of_nat (length (m_buckets t)) * lf"
    and half: "1 / 2 < of_nat (length (m_buckets t)) * lf"
    by simp_all
  have i': "invar t'"
    using then_Put.hyps(2) i by (rule Put_invar)
  have lf': "m_load_factor t' = lf"
    using Put_load_factor [OF then_Put.hyps(2)] lf by simp
  have pos: "0 < lf" "is_double lf" "0 < length (m_buckets t)" "0 \<le> m_num_keys t"
    using i lf by (auto simp: invar_def)
  from then_Put.hyps(2)
  have "of_int (m_num_keys t') < of_nat (length (m_buckets t')) * lf \<and>
    1 / 2 < of_nat (length (m_buckets t')) * lf"
  proof (cases rule: Put_cases)
    case same
    have "of_int (m_num_keys t') / of_nat (length (m_buckets t')) < lf"
      using double_div_less_exact [OF pos(2,1), of "m_num_keys t'" "length (m_buckets t')"]
        same(2) lf' by simp
    moreover have len: "length (m_buckets t') = length (m_buckets t)"
      using same(1) by (rule put_entry_length)
    ultimately have "of_int (m_num_keys t') < of_nat (length (m_buckets t')) * lf"
      using pos(3) by (simp add: field_simps)
    with half len show ?thesis
      by simp
  next
    case (grown t1)
    have n1: "m_num_keys t1 \<le> m_num_keys t + 1"
      using put_entry_num_keys [OF grown(1)] by simp
    have len: "length (m_buckets t') = 2 * length (m_buckets t)"
      and cnt: "m_num_keys t' = m_num_keys t1"
      using grow_length [OF grown(3)] grow_fields [OF grown(3)] put_entry_length [OF grown(1)]
      by simp_all
    have "(of_int (m_num_keys t1) :: rat) < 2 * (of_nat (length (m_buckets t)) * lf)"
    proof (cases "m_num_keys t = 0")
      case True
      with n1 have "(of_int (m_num_keys t1) :: rat) \<le> 1"
        by (metis add_0 of_int_le_1_iff)
      with half show ?thesis
        by simp
    next
      case False
      with pos(4) n1 have "m_num_keys t1 \<le> 2 * m_num_keys t"
        by simp
      then have "(of_int (m_num_keys t1) :: rat) \<le> of_int (2 * m_num_keys t)"
        by (simp only: of_int_le_iff)
      with below show ?thesis
        by simp
    qed
    with half len cnt show ?thesis
      by simp
  qed
  with i' lf' show ?case
    by simp
next
  case (then_Remove t key r t')
  then have i: "invar t" and lf: "m_load_factor t = lf"
    and below: "of_int (m_num_keys t) < of_nat (length (m_buckets t)) * lf"
    and half: "1 / 2 < of_nat (length (m_buckets t)) * lf"
    by simp_all
  have "m_num_keys t' \<le> m_num_keys t"
    using Remove_num_keys [OF then_Remove.hyps(2)] by simp
  then have "(of_int (m_num_keys t') :: rat) \<le> of_int (m_num_keys t)"
    by (simp only: of_int_le_iff)
  with below half i lf show ?case
    using Remove_invar [OF then_Remove.hyps(2) i] Remove_length [OF then_Remove.hyps(2)]
      Remove_load_factor [OF then_Remove.hyps(2)]
    by simp
qed

lemma doubled_has_bucket:
  assumes "0 < length bs"
  shows "has_bucket (replicate (2 * length bs) []) k \<longleftrightarrow> 0 \<le> k smod (2 * int (length bs))"
  using has_bucket_smod [of "replicate (2 * length bs) []" k] assms by simp

section \<open>Construction validity\<close>

text \<open>
  Claim C6. For every capacity greater than zero and every load factor in \<open>(0, 1]\<close> the
  constructor succeeds and yields a table that is empty and whose capacity is the requested
  one; for every capacity that is not positive it fails with the capacity error, and for a
  load factor that is at most \<open>0\<close> or greater than \<open>1\<close> it fails too, with the load-factor
  error whenever the capacity itself is valid. No table is produced in the failing cases.
\<close>

theorem construction_validity:
  "(0 < cap \<and> 0 < lf \<and> lf \<le> 1 \<longrightarrow>
      (\<exists>t. New cap lf = Inr t \<and> empty_ht t \<and> capacity t = cap)) \<and>
   (cap \<le> 0 \<longrightarrow>
      New cap lf = Inl (logic_error ''hash table capacity must be greater than zero'')) \<and>
   (lf \<le> 0 \<or> 1 < lf \<longrightarrow> isl (New cap lf)) \<and>
   (0 < cap \<and> (lf \<le> 0 \<or> 1 < lf) \<longrightarrow>
      New cap lf = Inl (logic_error ''hash table load factor must be in range [0...1]''))"
  by (auto simp: New_def empty_ht_def size_ht_def capacity_def)

theorem construction_validity_witness:
  "(\<exists>t. New 4 (3 / 4) = Inr t \<and> empty_ht t \<and> capacity t = 4) \<and>
   New 0 (3 / 4) = Inl (logic_error ''hash table capacity must be greater than zero'') \<and>
   isl (New (- 3) 0) \<and>
   New 4 (101 / 100) = Inl (logic_error ''hash table load factor must be in range [0...1]'')"
  using construction_validity [of 4 "3 / 4"] construction_validity [of 0 "3 / 4"]
    construction_validity [of "- 3" 0] construction_validity [of 4 "101 / 100"]
  by simp

section \<open>ContainsKey and Search\<close>

text \<open>
  Claim C8. For every key and every table state, \<open>ContainsKey\<close> answers true exactly when
  \<open>Search\<close> yields a value and false exactly when \<open>Search\<close> yields none; where the
  bucket index of the key is outside the vector both calls fail in the same way.
\<close>

theorem ContainsKey_Search:
  "ContainsKey t k = map_sum id (\<lambda>r. r \<noteq> None) (Search t k)"
  by (simp add: ContainsKey_def split: sum.splits)

section \<open>Remove leaves the rest of the table alone\<close>

text \<open>
  Claim C10. For every table state and every key \<open>k\<close>, a call of \<open>Remove\<close> that returns
  leaves the capacity unchanged and leaves the result of \<open>Search\<close> unchanged for every
  other key, in value and in presence; and on every reachable table the call returns for
  every key that is not negative.
\<close>

theorem Remove_frame:
  "(Remove t k = Inr (r, t') \<longrightarrow>
      capacity t' = capacity t \<and> (\<forall>k'. k' \<noteq> k \<longrightarrow> Search t' k' = Search t k')) \<and>
   (reachable t \<and> 0 \<le> k \<longrightarrow> (\<exists>r t'. Remove t k = Inr (r, t')))"
proof (intro conjI impI)
  assume rm: "Remove t k = Inr (r, t')"
  show "capacity t' = capacity t"
    using Remove_length [OF rm] by (simp add: capacity_def)
  show "\<forall>k'. k' \<noteq> k \<longrightarrow> Search t' k' = Search t k'"
    using Remove_length [OF rm] Remove_lookup_other [OF rm]
    by (auto intro: Search_length_lookup)
next
  assume "reachable t \<and> 0 \<le> k"
  then have "invar t" "0 \<le> k"
    by (simp_all add: reachable_invar)
  then have "has_bucket (m_buckets t) k" "INT_MIN < m_num_keys t"
    by (simp_all add: invar_def has_bucket_nonneg INT_MIN_def)
  from Remove_succeeds [OF this] show "\<exists>r t'. Remove t k = Inr (r, t')"
    by blast
qed

theorem Remove_frame_witness:
  "Remove \<lparr>m_num_keys = 2, m_load_factor = 1, m_buckets = [[(0, ''0''), (4, ''4'')], [], [], []]\<rparr> 0
     = Inr (Some ''0'', \<lparr>m_num_keys = 1, m_load_factor = 1, m_buckets = [[(4, ''4'')], [], [], []]\<rparr>) \<and>
   capacity \<lparr>m_num_keys = 1, m_load_factor = 1, m_buckets = [[(4, ''4'')], [], [], []]\<rparr> = 4 \<and>
   Search \<lparr>m_num_keys = 1, m_load_factor = 1, m_buckets = [[(4, ''4'')], [], [], []]\<rparr> 4
     = Inr (Some ''4'') \<and>
   reachable (projr (New 4 1)) \<and> (\<exists>r t'. Remove (projr (New 4 1)) 3 = Inr (r, t'))"
proof -
  let ?t = "\<lparr>m_num_keys = 2, m_load_factor = 1, m_buckets = [[(0, ''0''), (4, ''4'')], [], [], []]\<rparr>"
  let ?t' = "\<lparr>m_num_keys = 1, m_load_factor = 1, m_buckets = [[(4, ''4'')], [], [], []]\<rparr>"
  have rm: "Remove ?t 0 = Inr (Some ''0'', ?t')"
    by code_simp
  have s: "Search ?t 4 = Inr (Some ''4'')" "capacity ?t = 4"
    by code_simp+
  have new: "New 4 1 = Inr (projr (New 4 1))"
    by code_simp
  have re: "reachable (projr (New 4 1))"
    by (rule constructed [OF _ _ is_double_1 new]) (simp_all add: INT_MIN_def INT_MAX_def)
  from Remove_frame [of ?t 0 "Some ''0''" ?t'] rm s
  have "capacity ?t' = 4 \<and> Search ?t' 4 = Inr (Some ''4'')"
    by simp
  moreover from Remove_frame [of "projr (New 4 1)" 3] re
  have "\<exists>r t'. Remove (projr (New 4 1)) 3 = Inr (r, t')"
    by simp
  ultimately show ?thesis
    using rm re by simp
qed

section \<open>Invariants of every reachable table\<close>

text \<open>
  Claim C9. In every reachable table (any sequence of \<open>Put\<close> and \<open>Remove\<close> after a
  successful construction) the count equals the sum of the lengths of all buckets, the keys
  within each bucket are unique, every stored pair sits in the bucket whose index is the hash
  of its key against the current capacity, and so no key appears in two buckets.
\<close>

theorem reachable_invariants:
  assumes "reachable t"
  shows "size_ht t = int (sum_list (map length (m_buckets t))) \<and>
    (\<forall>b \<in> set (m_buckets t). distinct (map fst b)) \<and>
    (\<forall>i < length (m_buckets t). \<forall>p \<in> set (m_buckets t ! i). hash t (fst p) = Inr (int i)) \<and>
    (\<forall>i < length (m_buckets t). \<forall>j < length (m_buckets t). \<forall>p \<in> set (m_buckets t ! i).
        \<forall>q \<in> set (m_buckets t ! j). fst p = fst q \<longrightarrow> i = j)"
proof -
  have i: "invar t"
    using assms by (rule reachable_invar)
  then have pl: "\<forall>i < length (m_buckets t). \<forall>p \<in> set (m_buckets t ! i).
      hash t (fst p) = Inr (int i)"
    by (simp add: invar_def placed_def hash_def capacity_def)
  have "\<forall>i < length (m_buckets t). \<forall>j < length (m_buckets t). \<forall>p \<in> set (m_buckets t ! i).
        \<forall>q \<in> set (m_buckets t ! j). fst p = fst q \<longrightarrow> i = j"
  proof (intro allI impI ballI)
    fix i j p q
    assume "i < length (m_buckets t)" "j < length (m_buckets t)"
      "p \<in> set (m_buckets t ! i)" "q \<in> set (m_buckets t ! j)" "fst p = fst q"
    with pl have "hash t (fst p) = Inr (int i)" "hash t (fst q) = Inr (int j)"
      by blast+
    with \<open>fst p = fst q\<close> show "i = j" by simp
  qed
  with i pl show ?thesis
    by (simp add: invar_def size_ht_def length_concat)
qed


theorem reachable_invariants_witness:
  "reachable \<lparr>m_num_keys = 4, m_load_factor = 1,
        m_buckets = [[(0, ''0'')], [(1, ''1'')], [(2, ''2'')], [(3, ''3'')], [], [], [], []]\<rparr> \<and>
   size_ht \<lparr>m_num_keys = 4, m_load_factor = 1,
        m_buckets = [[(0, ''0'')], [(1, ''1'')], [(2, ''2'')], [(3, ''3'')], [], [], [], []]\<rparr> = 4"
proof -
  let ?t0 = "\<lparr>m_num_keys = 0, m_load_factor = 1, m_buckets = [[], [], [], []]\<rparr>"
  let ?t1 = "\<lparr>m_num_keys = 1, m_load_factor = 1, m_buckets = [[(0, ''0'')], [], [], []]\<rparr>"
  let ?t2 = "\<lparr>m_num_keys = 2, m_load_factor = 1, m_buckets = [[(0, ''0'')], [(1, ''1'')], [], []]\<rparr>"
  let ?t3 = "\<lparr>m_num_keys = 3, m_load_factor = 1,
      m_buckets = [[(0, ''0'')], [(1, ''1'')], [(2, ''2'')], []]\<rparr>"
  let ?t4 = "\<lparr>m_num_keys = 4, m_load_factor = 1,
      m_buckets = [[(0, ''0'')], [(1, ''1'')], [(2, ''2'')], [(3, ''3'')], [], [], [], []]\<rparr>"
  have n0: "New 4 1 = Inr ?t0"
    by code_simp
  have r0: "reachable ?t0"
    by (rule constructed [OF _ _ is_double_1 n0]) (simp_all add: INT_MIN_def INT_MAX_def)
  have "Put ?t0 0 ''0'' = Inr ?t1"
    by code_simp
  with r0 have r1: "reachable ?t1"
    by (rule after_Put)
  have "Put ?t1 1 ''1'' = Inr ?t2"
    by code_simp
  with r1 have r2: "reachable ?t2"
    by (rule after_Put)
  have "Put ?t2 2 ''2'' = Inr ?t3"
    by code_simp
  with r2 have r3: "reachable ?t3"
    by (rule after_Put)
  have "Put ?t3 3 ''3'' = Inr ?t4"
    by code_simp
  with r3 have r4: "reachable ?t4"
    by (rule after_Put)
  from reachable_invariants [OF r4] r4 show ?thesis
    by simp
qed

section \<open>Remove\<close>

text \<open>
  Claim C7, as amended. In every reachable table, \<open>Remove\<close> on a key that is present
  returns the value stored for that key, makes \<open>ContainsKey\<close> false afterwards and
  decrements the size by exactly one. \<open>Remove\<close> on a key that is not present and whose
  remainder against the capacity is an index of the bucket vector, as it is for every key
  that is not negative, returns the absent value and leaves the table, and so its size,
  unchanged. On the empty table of capacity 2 with the default load factor, \<open>Remove\<close> of
  5 returns the absent value and the size is 0.
\<close>

theorem Remove_semantics:
  "(reachable t \<and> k \<in> keys_ht t \<longrightarrow>
      (\<exists>v t'. Search t k = Inr (Some v) \<and> Remove t k = Inr (Some v, t') \<and>
         ContainsKey t' k = Inr False \<and> size_ht t' = size_ht t - 1)) \<and>
   (reachable t \<and> k \<notin> keys_ht t \<and> has_bucket (m_buckets t) k \<longrightarrow>
      Remove t k = Inr (None, t)) \<and>
   (reachable t \<and> 0 \<le> k \<longrightarrow> has_bucket (m_buckets t) k) \<and>
   (\<exists>t0. New 2 kDefaultLoadFactor = Inr t0 \<and> Remove t0 5 = Inr (None, t0) \<and> size_ht t0 = 0)"
proof (intro conjI impI)
  assume a: "reachable t \<and> k \<in> keys_ht t"
  then have i: "invar t"
    by (simp add: reachable_invar)
  from stored_key_lookup [OF i] a obtain v where
    hb: "has_bucket (m_buckets t) k" and v: "lookup (m_buckets t) k = Some v"
    by blast
  have "INT_MIN < m_num_keys t"
    using i by (simp add: invar_def INT_MIN_def)
  from Remove_succeeds [OF hb this] v obtain t' where rm: "Remove t k = Inr (Some v, t')"
    by auto
  have "has_bucket (m_buckets t') k"
    using hb has_bucket_length [OF Remove_length [OF rm]] by simp
  moreover have "\<forall>b \<in> set (m_buckets t). distinct (map fst b)"
    using i by (simp add: invar_def)
  then have "lookup (m_buckets t') k = None"
    by (rule Remove_lookup_same [OF rm])
  ultimately have "ContainsKey t' k = Inr False"
    by (simp add: ContainsKey_has_bucket)
  moreover have "size_ht t' = size_ht t - 1"
    using Remove_num_keys [OF rm] by (simp add: size_ht_def)
  moreover have "Search t k = Inr (Some v)"
    using hb v by (simp add: Search_has_bucket)
  ultimately show "\<exists>v t'. Search t k = Inr (Some v) \<and> Remove t k = Inr (Some v, t') \<and>
      ContainsKey t' k = Inr False \<and> size_ht t' = size_ht t - 1"
    using rm by blast
next
  assume a: "reachable t \<and> k \<notin> keys_ht t \<and> has_bucket (m_buckets t) k"
  then have i: "invar t"
    by (simp add: reachable_invar)
  have n: "lookup (m_buckets t) k = None"
    using absent_key_lookup [OF i] a by simp
  have "INT_MIN < m_num_keys t"
    using i by (simp add: invar_def INT_MIN_def)
  with a Remove_succeeds [of t k] n obtain t' where rm: "Remove t k = Inr (None, t')"
    by auto
  then have "t' = t"
    by (cases rule: Remove_cases) simp_all
  with rm show "Remove t k = Inr (None, t)"
    by simp
next
  assume "reachable t \<and> 0 \<le> k"
  then have "invar t" "0 \<le> k"
    by (simp_all add: reachable_invar)
  then show "has_bucket (m_buckets t) k"
    by (simp add: invar_def has_bucket_nonneg)
next
  have "New 2 kDefaultLoadFactor = Inr (projr (New 2 kDefaultLoadFactor))"
    "Remove (projr (New 2 kDefaultLoadFactor)) 5 = Inr (None, projr (New 2 kDefaultLoadFactor))"
    "size_ht (projr (New 2 kDefaultLoadFactor)) = 0"
    by code_simp+
  then show "\<exists>t0. New 2 kDefaultLoadFactor = Inr t0 \<and> Remove t0 5 = Inr (None, t0) \<and>
      size_ht t0 = 0"
    by blast
qed

theorem Remove_semantics_witness:
  "reachable \<lparr>m_num_keys = 1, m_load_factor = 1, m_buckets = [[], [(1, ''1'')], [], []]\<rparr> \<and>
   (\<exists>v t'. Search \<lparr>m_num_keys = 1, m_load_factor = 1, m_buckets = [[], [(1, ''1'')], [], []]\<rparr> 1
        = Inr (Some v) \<and>
      Remove \<lparr>m_num_keys = 1, m_load_factor = 1, m_buckets = [[], [(1, ''1'')], [], []]\<rparr> 1
        = Inr (Some v, t') \<and>
      ContainsKey t' 1 = Inr False \<and> size_ht t' = 0) \<and>
   Remove \<lparr>m_num_keys = 1, m_load_factor = 1, m_buckets = [[], [(1, ''1'')], [], []]\<rparr> 6
     = Inr (None, \<lparr>m_num_keys = 1, m_load_factor = 1, m_buckets = [[], [(1, ''1'')], [], []]\<rparr>)"
proof -
  let ?t0 = "\<lparr>m_num_keys = 0, m_load_factor = 1, m_buckets = [[], [], [], []]\<rparr>"
  let ?t1 = "\<lparr>m_num_keys = 1, m_load_factor = 1, m_buckets = [[], [(1, ''1'')], [], []]\<rparr>"
  have n0: "New 4 1 = Inr ?t0"
    by code_simp
  have r0: "reachable ?t0"
    by (rule constructed [OF _ _ is_double_1 n0]) (simp_all add: INT_MIN_def INT_MAX_def)
  have "Put ?t0 1 ''1'' = Inr ?t1"
    by code_simp
  with r0 have r1: "reachable ?t1"
    by (rule after_Put)
  have k: "1 \<in> keys_ht ?t1" "6 \<notin> keys_ht ?t1" "size_ht ?t1 = 1"
    by (simp_all add: keys_ht_def size_ht_def)
  from Remove_semantics [of ?t1 6] r1
  have hb: "has_bucket (m_buckets ?t1) 6"
    by simp
  from Remove_semantics [of ?t1 1] r1 k
  have "\<exists>v t'. Search ?t1 1 = Inr (Some v) \<and> Remove ?t1 1 = Inr (Some v, t') \<and>
      ContainsKey t' 1 = Inr False \<and> size_ht t' = 0"
    by simp
  moreover from Remove_semantics [of ?t1 6] r1 k hb
  have "Remove ?t1 6 = Inr (None, ?t1)"
    by simp
  ultimately show ?thesis
    using r1 by blast
qed

theorem Remove_negative_key_counterexample:
  "\<not> isl (New 2 kDefaultLoadFactor) \<and>
   - 1 \<notin> keys_ht (projr (New 2 kDefaultLoadFactor)) \<and>
   Remove (projr (New 2 kDefaultLoadFactor)) (- 1) = Inl IndexOutOfRange"
  by code_simp

section \<open>Which calls return\<close>

text \<open>
  Claim C1, as amended. On every reachable table, \<open>Search\<close>, \<open>ContainsKey\<close> and
  \<open>Remove\<close> return for every key that is not negative, and \<open>Put\<close> returns for every
  key that is not negative and every string value, the empty string included, provided
  every key stored so far is not negative and twice the capacity is still an \<^verbatim>\<open>int\<close>. The
  accessors \<open>empty_ht\<close>, \<open>size_ht\<close>, \<open>capacity\<close>, \<open>load_factor\<close>, \<open>keys_ht\<close> and
  \<open>values_ht\<close> index no bucket and have no failing branch. For a negative key the bucket
  index can be negative, and then the call fails on the index.
\<close>

theorem operations_return:
  assumes "reachable t" "0 \<le> k"
  shows "(\<exists>r. Search t k = Inr r) \<and> (\<exists>b. ContainsKey t k = Inr b) \<and>
    (\<exists>r t'. Remove t k = Inr (r, t')) \<and>
    ((\<forall>k' \<in> keys_ht t. 0 \<le> k') \<and> 2 * capacity t \<le> INT_MAX \<longrightarrow> (\<exists>t'. Put t k v = Inr t'))"
proof -
  have i: "invar t"
    using assms(1) by (rule reachable_invar)
  then have hb: "has_bucket (m_buckets t) k"
    using assms(2) by (simp add: invar_def has_bucket_nonneg)
  have "INT_MIN < m_num_keys t"
    using i by (simp add: invar_def INT_MIN_def)
  from Remove_succeeds [OF hb this] have "\<exists>r t'. Remove t k = Inr (r, t')"
    by blast
  moreover have "(\<forall>k' \<in> keys_ht t. 0 \<le> k') \<and> 2 * capacity t \<le> INT_MAX \<longrightarrow>
      (\<exists>t'. Put t k v = Inr t')"
  proof
    assume "(\<forall>k' \<in> keys_ht t. 0 \<le> k') \<and> 2 * capacity t \<le> INT_MAX"
    then have "\<forall>p \<in> set (concat (m_buckets t)). 0 \<le> fst p" "2 * capacity t \<le> INT_MAX"
      by (simp_all add: keys_ht_def)
    with i assms(2) show "\<exists>t'. Put t k v = Inr t'"
      by (intro Put_succeeds)
  qed
  ultimately show ?thesis
    using hb by (simp add: Search_has_bucket ContainsKey_has_bucket)
qed

theorem operations_return_witness:
  "reachable (projr (New 4 1)) \<and>
   (\<exists>r. Search (projr (New 4 1)) 7 = Inr r) \<and> (\<exists>b. ContainsKey (projr (New 4 1)) 7 = Inr b) \<and>
   (\<exists>r t'. Remove (projr (New 4 1)) 7 = Inr (r, t')) \<and>
   (\<exists>t'. Put (projr (New 4 1)) 7 [] = Inr t')"
proof -
  have new: "New 4 1 = Inr (projr (New 4 1))"
    by code_simp
  have re: "reachable (projr (New 4 1))"
    by (rule constructed [OF _ _ is_double_1 new]) (simp_all add: INT_MIN_def INT_MAX_def)
  have "keys_ht (projr (New 4 1)) = {}" "2 * capacity (projr (New 4 1)) \<le> INT_MAX"
    by code_simp+
  with operations_return [OF re, of 7 "[]"] re show ?thesis
    by simp
qed

theorem Search_negative_key_counterexample:
  "\<not> isl (New 2 1) \<and> Search (projr (New 2 1)) (- 1) = Inl IndexOutOfRange"
  by code_simp

section \<open>The load ratio after an insertion\<close>

text \<open>
  Claim C3, as amended. Take a table constructed with capacity \<open>cap\<close> and a finite load
  factor \<open>lf\<close>. If \<open>cap * lf\<close> is greater than one half then, after every sequence of
  \<open>Put\<close> and \<open>Remove\<close> calls that return, immediately after every \<open>Put\<close> that returns
  having inserted a new key, the ratio of the count to the capacity is strictly less than
  the load factor. If \<open>cap * lf\<close> is at most one half then the first \<open>Put\<close> on the new
  table that returns already leaves the ratio at or above the load factor: the resize block
  runs at most once in a call and doubles the capacity once.
\<close>

theorem load_ratio_after_insert:
  assumes "New cap lf = Inr t0" "cap \<le> INT_MAX" "is_double lf"
  shows "(1 / 2 < of_int cap * lf \<and> reachable_from t0 t \<and> ContainsKey t k = Inr False \<and>
      Put t k v = Inr t' \<longrightarrow>
        of_int (size_ht t') / of_int (capacity t') < load_factor t') \<and>
    (of_int cap * lf \<le> 1 / 2 \<and> Put t0 k v = Inr t' \<longrightarrow>
        \<not> of_int (size_ht t') / of_int (capacity t') < load_factor t')"
proof (intro conjI impI)
  assume a: "1 / 2 < of_int cap * lf \<and> reachable_from t0 t \<and> ContainsKey t k = Inr False \<and>
      Put t k v = Inr t'"
  then have "reachable_from t0 t'"
    by (auto intro: then_Put)
  from reachable_from_ratio [OF assms _ this] a
  have "invar t'" "m_load_factor t' = lf"
    "of_int (m_num_keys t') < of_nat (length (m_buckets t')) * lf"
    by simp_all
  moreover from this(1) have "0 < length (m_buckets t')"
    by (simp add: invar_def)
  ultimately show "of_int (size_ht t') / of_int (capacity t') < load_factor t'"
    by (simp add: size_ht_def capacity_def load_factor_def field_simps)
next
  assume a: "of_int cap * lf \<le> 1 / 2 \<and> Put t0 k v = Inr t'"
  note fresh = New_fresh [OF assms(1)]
  have lf: "0 < lf"
    using assms(1) by (auto simp: New_def split: if_splits)
  have c: "(0::rat) < of_int cap"
    using fresh(1) by simp
  have i: "invar t0"
    using assms by (intro New_invar)
  have "k \<notin> keys_ht t0"
    by (simp only: fresh(5)) simp
  then have "lookup (m_buckets t0) k = None"
    by (rule absent_key_lookup [OF i])
  then have n: "m_num_keys t' = 1"
    using a Put_num_keys [of t0 k v t'] fresh(2) by simp
  have "lf \<le> 1 / of_int cap"
  proof -
    have "of_int cap * lf \<le> 1"
      using a by simp
    with c show ?thesis
      by (simp add: field_simps)
  qed
  then have "lf \<le> of_int 1 / of_nat (nat cap)"
    using fresh(1) by simp
  from double_div_ge [OF assms(3) lf this]
  have "length (m_buckets t') = 2 * nat cap"
    using a Put_length [of t0 k v t'] n fresh(3,4) by simp
  then have "(of_int (capacity t') :: rat) = 2 * of_int cap"
    using fresh(1) by (simp add: capacity_def)
  moreover have "lf \<le> 1 / (2 * of_int cap)"
    using a c by (simp add: field_simps)
  ultimately show "\<not> of_int (size_ht t') / of_int (capacity t') < load_factor t'"
    using n Put_load_factor [of t0 k v t'] a fresh(3)
    by (simp add: size_ht_def load_factor_def)
qed

theorem load_ratio_after_insert_witness:
  "New 2 (1 / 2) = Inr \<lparr>m_num_keys = 0, m_load_factor = 1 / 2, m_buckets = [[], []]\<rparr> \<and>
   reachable_from \<lparr>m_num_keys = 0, m_load_factor = 1 / 2, m_buckets = [[], []]\<rparr>
     \<lparr>m_num_keys = 1, m_load_factor = 1 / 2, m_buckets = [[(0, ''0'')], [], [], []]\<rparr> \<and>
   Put \<lparr>m_num_keys = 1, m_load_factor = 1 / 2, m_buckets = [[(0, ''0'')], [], [], []]\<rparr> 1 ''1''
     = Inr \<lparr>m_num_keys = 2, m_load_factor = 1 / 2,
         m_buckets = [[(0, ''0'')], [(1, ''1'')], [], [], [], [], [], []]\<rparr> \<and>
   (2 :: rat) / 8 < 1 / 2 \<and>
   New 1 (1 / 2) = Inr \<lparr>m_num_keys = 0, m_load_factor = 1 / 2, m_buckets = [[]]\<rparr> \<and>
   Put \<lparr>m_num_keys = 0, m_load_factor = 1 / 2, m_buckets = [[]]\<rparr> 7 ''7''
     = Inr \<lparr>m_num_keys = 1, m_load_factor = 1 / 2, m_buckets = [[], [(7, ''7'')]]\<rparr> \<and>
   \<not> (1 :: rat) / 2 < 1 / 2"
proof -
  let ?t0 = "\<lparr>m_num_keys = 0, m_load_factor = 1 / 2, m_buckets = [[], []]\<rparr>"
  let ?t1 = "\<lparr>m_num_keys = 1, m_load_factor = 1 / 2, m_buckets = [[(0, ''0'')], [], [], []]\<rparr>"
  let ?t2 = "\<lparr>m_num_keys = 2, m_load_factor = 1 / 2,
      m_buckets = [[(0, ''0'')], [(1, ''1'')], [], [], [], [], [], []]\<rparr>"
  let ?s0 = "\<lparr>m_num_keys = 0, m_load_factor = 1 / 2, m_buckets = [[]]\<rparr>"
  let ?s1 = "\<lparr>m_num_keys = 1, m_load_factor = 1 / 2, m_buckets = [[], [(7, ''7'')]]\<rparr>"
  have n0: "New 2 (1 / 2) = Inr ?t0" and p0: "Put ?t0 0 ''0'' = Inr ?t1"
    and c1: "ContainsKey ?t1 1 = Inr False" and p1: "Put ?t1 1 ''1'' = Inr ?t2"
    and m0: "New 1 (1 / 2) = Inr ?s0" and q0: "Put ?s0 7 ''7'' = Inr ?s1"
    by code_simp+
  have r1: "reachable_from ?t0 ?t1"
    by (rule then_Put [OF at_start p0])
  have h: "(1 / 2 :: rat) < of_int 2 * (1 / 2)" "(2 :: int) \<le> INT_MAX"
    "(of_int 1 :: rat) * (1 / 2) \<le> 1 / 2" "(1 :: int) \<le> INT_MAX"
    by (simp_all add: INT_MAX_def)
  from load_ratio_after_insert [OF n0 h(2) is_double_half, of ?t1 1 "''1''" ?t2] h(1) r1 c1 p1
  have "(2 :: rat) / 8 < 1 / 2"
    by (simp add: size_ht_def capacity_def load_factor_def)
  moreover
  from load_ratio_after_insert [OF m0 h(4) is_double_half, of ?t1 7 "''7''" ?s1] h(3) q0
  have "\<not> (1 :: rat) / 2 < 1 / 2"
    by (simp add: size_ht_def capacity_def load_factor_def)
  ultimately show ?thesis
    using n0 r1 p1 m0 q0 by blast
qed

theorem load_ratio_counterexample:
  "\<not> isl (New 1 (1 / 2)) \<and>
   ContainsKey (projr (New 1 (1 / 2))) 0 = Inr False \<and>
   Put (projr (New 1 (1 / 2))) 0 ''0''
     = Inr \<lparr>m_num_keys = 1, m_load_factor = 1 / 2, m_buckets = [[(0, ''0'')], []]\<rparr> \<and>
   \<not> (of_int (size_ht \<lparr>m_num_keys = 1, m_load_factor = 1 / 2, m_buckets = [[(0, ''0'')], []]\<rparr>)
        / of_int (capacity \<lparr>m_num_keys = 1, m_load_factor = 1 / 2, m_buckets = [[(0, ''0'')], []]\<rparr>)
      < load_factor \<lparr>m_num_keys = 1, m_load_factor = 1 / 2, m_buckets = [[(0, ''0'')], []]\<rparr>)"
  by code_simp

section \<open>Put on a key that is already stored\<close>

text \<open>
  Claim C2, as amended. Take a reachable table and a key already stored in it. The resize
  test runs after the update as it does after an insertion. When the test is false, that
  is when the rounded quotient of the count by the capacity is below the load factor, the
  \<open>Put\<close> of that key returns, \<open>Search\<close> then yields the new value, the size and the
  capacity are unchanged, and the keys keep their buckets and their places in them. The
  test is false on every reachable table whose load factor is greater than one half. When
  the test is true, the call returns exactly when twice the capacity is still an
  \<^verbatim>\<open>int\<close> and every stored key has a remainder by twice the capacity that is not
  negative; when it returns, \<open>Search\<close> yields the new value, the size is unchanged and
  the capacity has doubled.
\<close>

theorem Put_existing_key:
  assumes "reachable t" "k \<in> keys_ht t"
  shows "(\<not> load_factor t \<le> double_div (size_ht t) (length (m_buckets t)) \<longrightarrow>
      (\<exists>t'. Put t k v = Inr t' \<and> Search t' k = Inr (Some v) \<and> size_ht t' = size_ht t \<and>
         capacity t' = capacity t \<and>
         map (map fst) (m_buckets t') = map (map fst) (m_buckets t))) \<and>
    (1 / 2 < load_factor t \<longrightarrow>
      \<not> load_factor t \<le> double_div (size_ht t) (length (m_buckets t))) \<and>
    (load_factor t \<le> double_div (size_ht t) (length (m_buckets t)) \<longrightarrow>
      ((\<exists>t'. Put t k v = Inr t') \<longleftrightarrow>
         2 * capacity t \<le> INT_MAX \<and> (\<forall>k' \<in> keys_ht t. 0 \<le> k' smod (2 * capacity t)))) \<and>
    (load_factor t \<le> double_div (size_ht t) (length (m_buckets t)) \<and> Put t k v = Inr t' \<longrightarrow>
      Search t' k = Inr (Some v) \<and> size_ht t' = size_ht t \<and> capacity t' = 2 * capacity t)"
proof -
  have i: "invar t"
    using assms(1) by (rule reachable_invar)
  have pl: "placed (m_buckets t)" "\<forall>b \<in> set (m_buckets t). distinct (map fst b)"
    and len: "0 < length (m_buckets t)"
    using i by (simp_all add: invar_def)
  from stored_key_lookup [OF i assms(2)] obtain old where
    hb: "has_bucket (m_buckets t) k" and old: "lookup (m_buckets t) k = Some old"
    by blast
  have ins: "insert k (keys_ht t) = keys_ht t"
    using assms(2) by auto
  have returns: "(\<exists>t'. Put t k v = Inr t') \<longleftrightarrow>
      (load_factor t \<le> double_div (size_ht t) (length (m_buckets t)) \<longrightarrow>
         2 * capacity t \<le> INT_MAX \<and> (\<forall>k' \<in> keys_ht t. 0 \<le> k' smod (2 * capacity t)))"
    using Put_returns_iff [OF i, of k v] hb assms(2) doubled_has_bucket [OF len]
    by (simp add: ins load_factor_def size_ht_def capacity_def)
  have after: "Search t' k = Inr (Some v) \<and> size_ht t' = size_ht t \<and>
      capacity t' =
        (if load_factor t \<le> double_div (size_ht t) (length (m_buckets t))
         then 2 * capacity t else capacity t)"
    if p: "Put t k v = Inr t'" for t'
  proof -
    have "lookup (m_buckets t') k = Some v"
      using Put_lookup [OF p pl, of k] by simp
    then have "Search t' k = Inr (Some v)"
      by (rule Search_lookup_Some)
    moreover have n: "size_ht t' = size_ht t"
      using Put_num_keys [OF p] old by (simp add: size_ht_def)
    moreover have "capacity t' =
        (if load_factor t \<le> double_div (size_ht t) (length (m_buckets t))
         then 2 * capacity t else capacity t)"
      using Put_length [OF p] n by (simp add: capacity_def size_ht_def load_factor_def)
    ultimately show ?thesis
      by blast
  qed
  have first: "\<exists>t'. Put t k v = Inr t' \<and> Search t' k = Inr (Some v) \<and> size_ht t' = size_ht t \<and>
      capacity t' = capacity t \<and> map (map fst) (m_buckets t') = map (map fst) (m_buckets t)"
    if f: "\<not> load_factor t \<le> double_div (size_ht t) (length (m_buckets t))"
  proof -
    from returns f obtain t' where p: "Put t k v = Inr t'"
      by blast
    have same_cap: "capacity t' = capacity t"
      using after [OF p] f by simp
    from p have "map (map fst) (m_buckets t') = map (map fst) (m_buckets t)"
    proof (cases rule: Put_cases)
      case same
      have "lookup (m_buckets t) k \<noteq> None"
        using old by simp
      with same(1) show ?thesis
        by (rule put_entry_update_keys)
    next
      case (grown t1)
      with same_cap len show ?thesis
        using grow_length [OF grown(3)] put_entry_length [OF grown(1)]
        by (simp add: capacity_def)
    qed
    with p after [OF p] same_cap show ?thesis
      by blast
  qed
  have second: "\<not> load_factor t \<le> double_div (size_ht t) (length (m_buckets t))"
    if "1 / 2 < load_factor t"
    using reachable_test_false [OF assms(1)] that by (simp add: load_factor_def size_ht_def)
  from first second returns after show ?thesis
    by auto
qed

theorem Put_existing_key_witness:
  "reachable \<lparr>m_num_keys = 1, m_load_factor = 1, m_buckets = [[], [(1, ''1'')], [], []]\<rparr> \<and>
   1 \<in> keys_ht \<lparr>m_num_keys = 1, m_load_factor = 1, m_buckets = [[], [(1, ''1'')], [], []]\<rparr> \<and>
   (\<exists>t'. Put \<lparr>m_num_keys = 1, m_load_factor = 1, m_buckets = [[], [(1, ''1'')], [], []]\<rparr> 1 ''one''
        = Inr t' \<and> Search t' 1 = Inr (Some ''one'') \<and> size_ht t' = 1 \<and> capacity t' = 4 \<and>
      map (map fst) (m_buckets t') = [[], [1], [], []]) \<and>
   reachable \<lparr>m_num_keys = 1, m_load_factor = 1 / 2, m_buckets = [[(0, ''a'')], []]\<rparr> \<and>
   0 \<in> keys_ht \<lparr>m_num_keys = 1, m_load_factor = 1 / 2, m_buckets = [[(0, ''a'')], []]\<rparr> \<and>
   (\<exists>t'. Put \<lparr>m_num_keys = 1, m_load_factor = 1 / 2, m_buckets = [[(0, ''a'')], []]\<rparr> 0 ''b''
        = Inr t') \<and>
   Search \<lparr>m_num_keys = 1, m_load_factor = 1 / 2, m_buckets = [[(0, ''b'')], [], [], []]\<rparr> 0
     = Inr (Some ''b'')"
proof -
  let ?t0 = "\<lparr>m_num_keys = 0, m_load_factor = 1, m_buckets = [[], [], [], []]\<rparr>"
  let ?t1 = "\<lparr>m_num_keys = 1, m_load_factor = 1, m_buckets = [[], [(1, ''1'')], [], []]\<rparr>"
  let ?s0 = "\<lparr>m_num_keys = 0, m_load_factor = 1 / 2, m_buckets = [[]]\<rparr>"
  let ?s1 = "\<lparr>m_num_keys = 1, m_load_factor = 1 / 2, m_buckets = [[(0, ''a'')], []]\<rparr>"
  let ?s2 = "\<lparr>m_num_keys = 1, m_load_factor = 1 / 2, m_buckets = [[(0, ''b'')], [], [], []]\<rparr>"
  have n0: "New 4 1 = Inr ?t0" and m0: "New 1 (1 / 2) = Inr ?s0"
    by code_simp+
  have r0: "reachable ?t0"
    by (rule constructed [OF _ _ is_double_1 n0]) (simp_all add: INT_MIN_def INT_MAX_def)
  have q0: "reachable ?s0"
    by (rule constructed [OF _ _ is_double_half m0]) (simp_all add: INT_MIN_def INT_MAX_def)
  have "Put ?t0 1 ''1'' = Inr ?t1" "Put ?s0 0 ''a'' = Inr ?s1"
    by code_simp+
  with r0 q0 have r1: "reachable ?t1" and q1: "reachable ?s1"
    by (auto intro: after_Put)
  have k: "1 \<in> keys_ht ?t1" "0 \<in> keys_ht ?s1" "keys_ht ?s1 = {0}"
    by (simp_all add: keys_ht_def)
  have lf1: "1 / 2 < load_factor ?t1"
    by (simp add: load_factor_def)
  have test: "load_factor ?s1 \<le> double_div (size_ht ?s1) (length (m_buckets ?s1))"
    and p: "Put ?s1 0 ''b'' = Inr ?s2"
    by code_simp+
  from Put_existing_key [OF r1 k(1), of "''one''"] lf1
  have "\<exists>t'. Put ?t1 1 ''one'' = Inr t' \<and> Search t' 1 = Inr (Some ''one'') \<and> size_ht t' = 1 \<and>
      capacity t' = 4 \<and> map (map fst) (m_buckets t') = [[], [1], [], []]"
    by (simp add: size_ht_def capacity_def)
  moreover from Put_existing_key [OF q1 k(2), of "''b''" ?s2] test p
  have "(\<exists>t'. Put ?s1 0 ''b'' = Inr t') \<and> Search ?s2 0 = Inr (Some ''b'')"
    by (simp add: k(3) capacity_def INT_MAX_def)
  ultimately show ?thesis
    using r1 q1 k(1,2) by blast
qed

theorem Put_existing_key_counterexample:
  "\<not> isl (New 1 (1 / 2)) \<and>
   Put (projr (New 1 (1 / 2))) 0 ''a''
     = Inr \<lparr>m_num_keys = 1, m_load_factor = 1 / 2, m_buckets = [[(0, ''a'')], []]\<rparr> \<and>
   0 \<in> keys_ht \<lparr>m_num_keys = 1, m_load_factor = 1 / 2, m_buckets = [[(0, ''a'')], []]\<rparr> \<and>
   Put \<lparr>m_num_keys = 1, m_load_factor = 1 / 2, m_buckets = [[(0, ''a'')], []]\<rparr> 0 ''b''
     = Inr \<lparr>m_num_keys = 1, m_load_factor = 1 / 2, m_buckets = [[(0, ''b'')], [], [], []]\<rparr> \<and>
   capacity \<lparr>m_num_keys = 1, m_load_factor = 1 / 2, m_buckets = [[(0, ''a'')], []]\<rparr> = 2 \<and>
   capacity \<lparr>m_num_keys = 1, m_load_factor = 1 / 2, m_buckets = [[(0, ''b'')], [], [], []]\<rparr> = 4"
  by code_simp

section \<open>Put and Search round trip\<close>

text \<open>
  Claim C5, as amended. For every list of distinct keys \<open>k\<^sub>0 \<dots> k\<^sub>n\<^sub>-\<^sub>1\<close> that are not negative
  and every table constructed with a capacity below \<open>2\<^sup>3\<^sup>0\<close> and a finite load factor such
  that \<open>n < capacity * loadFactor\<close>, putting \<open>(k\<^sub>i, f k\<^sub>i)\<close> for each \<open>i\<close> returns, and
  afterwards \<open>Search k\<^sub>i\<close> yields \<open>f k\<^sub>i\<close> for every \<open>i\<close> and the size is \<open>n\<close>; here \<open>f\<close>
  is any function from keys to strings, the decimal representation among them. No resize is
  triggered when the rounded quotient of \<open>n\<close> by the capacity is below the load factor.
\<close>

theorem Put_Search_round_trip:
  assumes "New cap lf = Inr t" "is_double lf" "2 * cap \<le> INT_MAX"
    and "distinct ks" "\<forall>k \<in> set ks. 0 \<le> k"
    and "of_nat (length ks) < of_int cap * lf"
  shows "\<exists>t'. put_all t (map (\<lambda>k. (k, f k)) ks) = Inr t' \<and>
    (\<forall>k \<in> set ks. Search t' k = Inr (Some (f k))) \<and> size_ht t' = int (length ks) \<and>
    (double_div (int (length ks)) (nat cap) < lf \<longrightarrow> capacity t' = cap)"
proof -
  note fresh = New_fresh [OF assms(1)]
  have "cap \<le> INT_MAX"
    using assms(3) fresh(1) by simp
  with assms(1,2) have i: "invar t"
    by (intro New_invar)
  have "of_int (m_num_keys t + int (length ks)) < of_nat (nat cap) * m_load_factor t"
    using assms(6) fresh(1,2,3) by simp
  moreover have "2 * int (nat cap) \<le> INT_MAX"
    using assms(3) fresh(1) by simp
  ultimately obtain t' where t': "put_all t (map (\<lambda>k. (k, f k)) ks) = Inr t'"
    "m_num_keys t' = m_num_keys t + int (length ks)"
    "\<forall>x. lookup (m_buckets t') x = (if x \<in> set ks then Some (f x) else lookup (m_buckets t) x)"
    using put_all_one_growth [OF i assms(4,5), of "nat cap" f] fresh(4,5) by auto
  have s: "\<forall>k \<in> set ks. Search t' k = Inr (Some (f k))"
    using t'(3) by (simp add: Search_lookup_Some)
  have n: "size_ht t' = int (length ks)"
    using t'(2) fresh(2) by (simp add: size_ht_def)
  have "capacity t' = cap" if "double_div (int (length ks)) (nat cap) < lf"
  proof -
    have "\<forall>k \<in> set ks. has_bucket (m_buckets t) k"
      using assms(5) fresh(1,4) by (simp add: has_bucket_nonneg)
    moreover have "double_div (m_num_keys t + int (length ks)) (length (m_buckets t))
        < m_load_factor t"
      using that fresh(2,3,4) by simp
    ultimately obtain t'' where "put_all t (map (\<lambda>k. (k, f k)) ks) = Inr t''"
      "length (m_buckets t'') = length (m_buckets t)"
      using put_all_no_growth [OF i assms(4), of f] fresh(5) by auto
    with t'(1) fresh(1,4) show ?thesis
      by (simp add: capacity_def)
  qed
  with t'(1) s n show ?thesis
    by blast
qed

theorem Put_Search_round_trip_witness:
  "New 4 1 = Inr (projr (New 4 1)) \<and>
   (\<exists>t'. put_all (projr (New 4 1)) (map (\<lambda>k. (k, replicate (nat k) CHR ''x'')) [5, 2, 7]) = Inr t' \<and>
      (\<forall>k \<in> set [5, 2, 7]. Search t' k = Inr (Some (replicate (nat k) CHR ''x''))) \<and>
      size_ht t' = 3 \<and> capacity t' = 4)"
proof -
  have new: "New 4 1 = Inr (projr (New 4 1))"
    by code_simp
  have d: "double_div (int (length [5, 2, 7 :: int])) (nat 4) < 1"
    by code_simp
  have "(of_nat (length [5, 2, 7 :: int]) :: rat) < of_int 4 * 1"
    by simp
  from Put_Search_round_trip [OF new is_double_1 _ _ _ this,
      of "\<lambda>k. replicate (nat k) CHR ''x''"] d new
  show ?thesis
    by (simp add: INT_MAX_def)
qed

theorem round_trip_negative_key_counterexample:
  "\<not> isl (New 4 1) \<and> distinct [- 1 :: int] \<and> (of_nat (length [- 1 :: int]) :: rat) < of_int 4 * 1 \<and>
   put_all (projr (New 4 1)) [(- 1, ''-1'')] = Inl IndexOutOfRange"
  by code_simp

section \<open>Growth\<close>




end
